theory Spec2Isabelle
  imports Main
begin

section \<open>The BAST flash translation layer of \<open>FTLs/bast_ftl.cpp\<close>\<close>

subsection \<open>Types shared with the simulator\<close>

text \<open>
  Physical addresses are handled through their linear form (what
  \<open>Address::get_linear_address\<close> returns and what \<open>Address(linear, PAGE)\<close>
  is built from).  The block mapping table \<open>data_list\<close> is a \<open>long[]\<close> whose
  entries are linear addresses or \<open>-1\<close>, so linear addresses are integers here.
\<close>

type_synonym addr = int

datatype page_state = EMPTY | VALID | INVALID
datatype block_state = FREE | ACTIVE | INACTIVE
datatype block_type = LOG | DATA
datatype event_type = READ | WRITE | TRIM
datatype status = FAILURE | SUCCESS

text \<open>
  What the translation layer stores in an \<open>Event\<close>: its kind, the logical
  address, the physical address set by \<open>set_address\<close>, the no-op flag set by
  \<open>set_noop\<close>, and the address of the write chained by \<open>set_next\<close>.
\<close>

record event =
  ev_type :: event_type
  ev_logical :: nat
  ev_address :: addr
  ev_noop :: bool
  ev_next :: "addr option"

datatype error =
    OutOfBounds      \<comment> \<open>\<open>data_list[i]\<close> with \<open>i\<close> outside the table\<close>
  | UseAfterFree     \<comment> \<open>a \<open>LogPageBlock*\<close> dereferenced after \<open>delete\<close>\<close>
  | NullDeref        \<comment> \<open>a null \<open>LogPageBlock*\<close> dereferenced\<close>
  | EmptyLogMap      \<comment> \<open>\<open>*log_map.begin()\<close> on an empty map\<close>
  | NoFreeBlock      \<comment> \<open>the free-block pool is exhausted\<close>

text \<open>
  The configuration constants of \<open>ssd.h\<close> that this file reads, each of type
  \<open>uint\<close>.
\<close>

record config =
  BLOCK_SIZE :: nat
  BAST_LOG_PAGE_LIMIT :: nat
  SSD_SIZE :: nat
  PACKAGE_SIZE :: nat
  DIE_SIZE :: nat
  PLANE_SIZE :: nat

text \<open>
  Modelled from the spec: the flash array, the block manager and the event
  dispatch are collaborators whose code is outside this file (spec section 6).
  Each call the translation layer makes on them is a field of this record,
  acting on a state \<open>'f\<close> of the collaborators that the translation layer never
  inspects by itself.
  \<^item> \<open>get_state\<close>: \<open>controller.get_state(address)\<close>, the tracked state of a page;
  \<^item> \<open>get_num_valid\<close>: \<open>controller.get_num_valid(&address)\<close> of a block;
  \<^item> \<open>get_free_page\<close>: the page address \<open>controller.get_free_page\<close> stores in its argument;
  \<^item> \<open>blk_state\<close>: \<open>controller.get_block_pointer(address)->get_state()\<close>;
  \<^item> \<open>invalidate_page\<close>: \<open>controller.get_block_pointer(address)->invalidate_page(address.page)\<close>;
  \<^item> \<open>issue\<close>: \<open>controller.issue(event)\<close>;
  \<^item> \<open>get_free_block\<close>: \<open>manager.get_free_block(kind)\<close>, \<open>None\<close> when the pool is exhausted;
  \<^item> \<open>invalidate\<close>, \<open>erase_and_invalidate\<close>, \<open>promote_block\<close>, \<open>simulate_map_read\<close>,
    \<open>simulate_map_write\<close>, \<open>insert_events\<close>: the calls of the same name on \<open>manager\<close>;
  \<^item> \<open>consolidate_metaevent\<close>: \<open>event.consolidate_metaevent(readEvent)\<close>.
\<close>

record 'f env =
  get_state :: "'f \<Rightarrow> addr \<Rightarrow> page_state"
  get_num_valid :: "'f \<Rightarrow> addr \<Rightarrow> nat"
  get_free_page :: "'f \<Rightarrow> addr \<Rightarrow> addr"
  blk_state :: "'f \<Rightarrow> addr \<Rightarrow> block_state"
  invalidate_page :: "'f \<Rightarrow> addr \<Rightarrow> 'f"
  issue :: "'f \<Rightarrow> event \<Rightarrow> status \<times> 'f"
  get_free_block :: "'f \<Rightarrow> block_type \<Rightarrow> (addr \<times> 'f) option"
  invalidate :: "'f \<Rightarrow> addr \<Rightarrow> block_type \<Rightarrow> 'f"
  erase_and_invalidate :: "'f \<Rightarrow> addr \<Rightarrow> block_type \<Rightarrow> 'f"
  promote_block :: "'f \<Rightarrow> block_type \<Rightarrow> 'f"
  simulate_map_read :: "'f \<Rightarrow> event \<Rightarrow> 'f"
  simulate_map_write :: "'f \<Rightarrow> event \<Rightarrow> 'f"
  insert_events :: "'f \<Rightarrow> event \<Rightarrow> 'f"
  consolidate_metaevent :: "'f \<Rightarrow> event \<Rightarrow> 'f"

subsection \<open>Log blocks and the state of the translation layer\<close>

text \<open>
  \<open>LogPageBlock\<close>: the slot table \<open>pages\<close> (\<open>-1\<close> is an unset slot), the table
  \<open>aPages\<close>, the counter \<open>numPages\<close> and the physical block \<open>address\<close>.  The
  field \<open>next\<close> is set to \<open>NULL\<close> by the constructor and never read in this file.
\<close>

record LogPageBlock =
  pages :: "int list"
  aPages :: "int list"
  numPages :: nat
  address :: addr

text \<open>
  The constructor \<open>LogPageBlock::LogPageBlock\<close>; \<open>address\<close> is default
  constructed (linear address 0) until the caller assigns it.
\<close>

definition new_LogPageBlock :: "config \<Rightarrow> LogPageBlock" where
  "new_LogPageBlock C =
     \<lparr> pages = replicate (BLOCK_SIZE C) (- 1),
       aPages = replicate (BLOCK_SIZE C) (- 1),
       numPages = 0,
       address = 0 \<rparr>"

text \<open>The counters of \<open>controller.stats\<close> that this file increments.\<close>

record stats =
  numMemoryRead :: nat
  numFTLRead :: nat
  numFTLWrite :: nat
  numFTLTrim :: nat
  numLogMergeSwitch :: nat
  numLogMergeFull :: nat

text \<open>
  The members of \<open>FtlImpl_Bast\<close>.  \<open>log_map\<close> holds pointers to heap-allocated
  log blocks, so the state has an explicit store \<open>heap\<close> from pointers to
  objects (\<open>None\<close>: not allocated, or deleted) and the next pointer \<open>new\<close>
  returns.  A deleted pointer stays deleted: dereferencing it is undefined
  behaviour whatever address the allocator hands out next.

  The declaration of \<open>log_map\<close> is in \<open>ssd.h\<close>; the operations this file uses on
  it (\<open>find\<close>/\<open>end\<close>, \<open>operator[]\<close>, \<open>erase\<close> by key, \<open>size\<close>, \<open>begin\<close> with
  \<open>.first\<close>/\<open>.second\<close>) are those of \<open>std::map<long, LogPageBlock*>\<close>, which the
  spec's design notes call "map iteration" order.  It is an association
  list kept in ascending key order, the iteration order of \<open>std::map\<close>.
\<close>

record ftl =
  addressShift :: nat
  addressSize :: nat
  data_list :: "int list"
  log_map :: "(int \<times> nat) list"
  heap :: "nat \<Rightarrow> LogPageBlock option"
  next_ptr :: nat
  stats :: stats

subsection \<open>The operations of \<open>std::map\<close> used on \<open>log_map\<close>\<close>

text \<open>\<open>log_map[k] = v\<close>: insert in key order, or overwrite the value of an existing key.\<close>

fun lm_assign :: "int \<Rightarrow> 'v \<Rightarrow> (int \<times> 'v) list \<Rightarrow> (int \<times> 'v) list" where
  "lm_assign k v [] = [(k, v)]"
| "lm_assign k v ((k', v') # m) =
     (if k < k' then (k, v) # (k', v') # m
      else if k = k' then (k, v) # m
      else (k', v') # lm_assign k v m)"

text \<open>\<open>log_map.erase(k)\<close>.\<close>

fun lm_erase :: "int \<Rightarrow> (int \<times> 'v) list \<Rightarrow> (int \<times> 'v) list" where
  "lm_erase k [] = []"
| "lm_erase k ((k', v') # m) = (if k = k' then m else (k', v') # lm_erase k m)"

text \<open>\<open>log_map.find(k)\<close>: \<open>None\<close> stands for \<open>log_map.end()\<close>.\<close>

definition lm_find :: "(int \<times> 'v) list \<Rightarrow> int \<Rightarrow> 'v option" where
  "lm_find m k = map_of m k"

subsection \<open>Construction\<close>

text \<open>
  The two counting statements of the constructor have the shape
  \<open>for (int size = n; size > 0; count++) size /= 2;\<close>.
\<close>

fun halving_loop :: "nat \<Rightarrow> nat \<Rightarrow> nat" where
  "halving_loop sz cnt =
     (if sz > 0 then halving_loop (sz div 2) (cnt + 1) else cnt)"

declare halving_loop.simps [simp del]

text \<open>
  The size constants are of type \<open>uint\<close> (32 bits), so their products wrap
  around modulo \<open>2^32\<close>; \<open>wrap_uint\<close> is the value of a \<open>uint\<close> expression whose
  unbounded value is \<open>n\<close>.  \<open>numBlocks\<close> is the \<open>uint numBlocks\<close> of line 91.
\<close>

definition wrap_uint :: "nat \<Rightarrow> int" where
  "wrap_uint n = int n mod 2 ^ 32"

definition numBlocks :: "config \<Rightarrow> nat" where
  "numBlocks C = nat (wrap_uint (SSD_SIZE C * PACKAGE_SIZE C * DIE_SIZE C * PLANE_SIZE C))"

text \<open>The conversion of a \<open>uint\<close> to \<open>int\<close>: values from \<open>2^31\<close> on become negative.\<close>

definition int_of_uint :: "int \<Rightarrow> int" where
  "int_of_uint u = (if u < 2 ^ 31 then u else u - 2 ^ 32)"

text \<open>
  \<open>FtlImpl_Bast::FtlImpl_Bast\<close>.  The only check, \<open>assert("integer is not 4 bytes")\<close>,
  asserts a string literal and never fails; there is no error path.

  \<open>int size = SSD_SIZE * PACKAGE_SIZE * DIE_SIZE * PLANE_SIZE * 4\<close> is a \<open>uint\<close>
  product converted to \<open>int\<close>; when it is negative the first counting
  statement does not run (\<open>nat\<close> of a negative integer is 0).
  \<open>int size = BLOCK_SIZE/2\<close> is below \<open>2^31\<close> for every \<open>uint\<close>, so that conversion
  is exact.  \<open>addressSize\<close> is printed and not used again.
\<close>

definition FtlImpl_Bast :: "config \<Rightarrow> ftl" where
  "FtlImpl_Bast C =
     \<lparr> addressShift = halving_loop (BLOCK_SIZE C div 2) 0,
       addressSize =
         halving_loop
           (nat (int_of_uint
              (wrap_uint (SSD_SIZE C * PACKAGE_SIZE C * DIE_SIZE C * PLANE_SIZE C * 4)))) 0,
       data_list = replicate (numBlocks C) (- 1),
       log_map = [],
       heap = (\<lambda>_. None),
       next_ptr = 0,
       stats = \<lparr> numMemoryRead = 0, numFTLRead = 0, numFTLWrite = 0, numFTLTrim = 0,
                 numLogMergeSwitch = 0, numLogMergeFull = 0 \<rparr> \<rparr>"

subsection \<open>Address splitting and guarded accesses\<close>

text \<open>\<open>event.get_logical_address() >> addressShift\<close>, stored in a \<open>long\<close>.\<close>

definition block_of :: "ftl \<Rightarrow> nat \<Rightarrow> int" where
  "block_of st la = int (la div 2 ^ addressShift st)"

text \<open>
  Modelled from the spec: the class \<open>Address\<close> is declared in \<open>ssd.h\<close>;
  \<open>Address(linear, PAGE).page\<close> is the offset of the page in its block, and
  the source itself writes the offset as \<open>get_logical_address() % BLOCK_SIZE\<close>.
\<close>

definition page_of :: "config \<Rightarrow> nat \<Rightarrow> nat" where
  "page_of C la = la mod BLOCK_SIZE C"

text \<open>\<open>data_list[b]\<close>; outside the table the access is undefined behaviour.\<close>

definition data_at :: "ftl \<Rightarrow> int \<Rightarrow> error + int" where
  "data_at st b =
     (if 0 \<le> b \<and> nat b < length (data_list st) then Inr (data_list st ! nat b)
      else Inl OutOfBounds)"

text \<open>\<open>*p\<close> for a non-null \<open>LogPageBlock *p\<close>.\<close>

definition deref :: "ftl \<Rightarrow> nat \<Rightarrow> error + LogPageBlock" where
  "deref st p = (case heap st p of None \<Rightarrow> Inl UseAfterFree | Some lb \<Rightarrow> Inr lb)"

text \<open>A possibly null pointer: \<open>Inr None\<close> for \<open>NULL\<close>, the object otherwise.\<close>

definition deref_opt :: "ftl \<Rightarrow> nat option \<Rightarrow> error + LogPageBlock option" where
  "deref_opt st po =
     (case po of
        None \<Rightarrow> Inr None
      | Some p \<Rightarrow> (case deref st p of Inl e \<Rightarrow> Inl e | Inr lb \<Rightarrow> Inr (Some lb)))"

text \<open>
  The sum \<open>base + slot\<close> of an \<open>unsigned long\<close> and an \<open>int\<close> is computed in
  \<open>unsigned long\<close> (64 bits on the LP64 platforms the simulator targets); it
  differs from the integer sum only when the slot is \<open>-1\<close> and the base is 0.
\<close>

definition ulong :: "int \<Rightarrow> int" where
  "ulong x = x mod 2 ^ 64"

definition bump_MemoryRead :: "ftl \<Rightarrow> ftl" where
  "bump_MemoryRead st = st\<lparr>stats := (stats st)\<lparr>numMemoryRead := numMemoryRead (stats st) + 1\<rparr>\<rparr>"

subsection \<open>read\<close>

text \<open>
  \<open>FtlImpl_Bast::read\<close>.  The result is the status of \<open>controller.issue\<close>, the
  event with the resolved address, and the two states.
\<close>

definition read ::
  "'f env \<Rightarrow> config \<Rightarrow> ftl \<Rightarrow> 'f \<Rightarrow> event \<Rightarrow> error + (status \<times> event \<times> ftl \<times> 'f)" where
  "read E C st fl event =
     (let lookupBlock = block_of st (ev_logical event);
          page = page_of C (ev_logical event);
          logBlock = lm_find (log_map st) lookupBlock;
          st1 = bump_MemoryRead st
      in case deref_opt st logBlock of Inl e \<Rightarrow> Inl e
         | Inr lbo \<Rightarrow>
        (case
           (if lbo \<noteq> None \<and> pages (the lbo) ! page \<noteq> - 1
            then Inr (address (the lbo) + pages (the lbo) ! page)
            else case data_at st lookupBlock of Inl e \<Rightarrow> Inl e
                 | Inr d \<Rightarrow>
                     if (d = - 1 \<and> lbo \<noteq> None \<and> pages (the lbo) ! page = - 1)
                        \<or> (d = - 1 \<and> lbo = None)
                     then Inr 0
                     else Inr (d + int (ev_logical event mod BLOCK_SIZE C)))
         of Inl e \<Rightarrow> Inl e
          | Inr a \<Rightarrow>
              let event1 = event\<lparr>ev_address := a\<rparr>;
                  event2 = (if get_state E fl (ev_address event1) = INVALID
                            then event1\<lparr>ev_address := 0\<rparr> else event1);
                  fl1 = simulate_map_read E fl event2;
                  fl2 = insert_events E fl1 event2;
                  st2 = st1\<lparr>stats := (stats st1)\<lparr>numFTLRead := numFTLRead (stats st1) + 1\<rparr>\<rparr>;
                  (r, fl3) = issue E fl2 event2
              in Inr (r, event2, st2, fl3)))"

subsection \<open>Disposal, sequential switch, random merge\<close>

text \<open>\<open>FtlImpl_Bast::dispose_logblock\<close>: \<open>log_map.erase(lba); delete logBlock;\<close>.\<close>

definition dispose_logblock :: "ftl \<Rightarrow> nat \<Rightarrow> int \<Rightarrow> ftl" where
  "dispose_logblock st logBlock lba =
     st\<lparr>log_map := lm_erase lba (log_map st), heap := (heap st)(logBlock := None)\<rparr>"

text \<open>
  The loop of \<open>is_sequential\<close>:
  \<open>for (uint i=0;i<BLOCK_SIZE;i++) if (logBlock->pages[i] != i) { isSequential = false; break; }\<close>.
  The \<open>int\<close> slot is converted to \<open>uint\<close> for the comparison, which makes \<open>-1\<close>
  the largest \<open>uint\<close>, different from every \<open>i\<close> below \<open>BLOCK_SIZE\<close>: the test
  is equality of the integers.
\<close>

function seq_loop :: "config \<Rightarrow> LogPageBlock \<Rightarrow> nat \<Rightarrow> bool" where
  "seq_loop C lb i =
     (if i < BLOCK_SIZE C
      then (if pages lb ! i \<noteq> int i then False else seq_loop C lb (i + 1))
      else True)"
  by pat_completeness auto
termination
  by (relation "measure (\<lambda>(C, lb, i). BLOCK_SIZE C - i)") auto

declare seq_loop.simps [simp del]

text \<open>\<open>FtlImpl_Bast::is_sequential\<close>.\<close>

definition is_sequential ::
  "'f env \<Rightarrow> config \<Rightarrow> ftl \<Rightarrow> 'f \<Rightarrow> nat \<Rightarrow> int \<Rightarrow> event \<Rightarrow> error + (bool \<times> ftl \<times> 'f)" where
  "is_sequential E C st fl logBlock lba event =
     (case deref st logBlock of Inl e \<Rightarrow> Inl e
      | Inr lb \<Rightarrow>
          let isSequential = seq_loop C lb 0
          in if isSequential
             then (let fl1 = promote_block E fl DATA
                   in case data_at st lba of Inl e \<Rightarrow> Inl e
                      | Inr d \<Rightarrow>
                          let fl2 = (if d \<noteq> - 1 then invalidate E fl1 d DATA else fl1);
                              st1 = st\<lparr>data_list := (data_list st)[nat lba := address lb]\<rparr>;
                              st2 = dispose_logblock st1 logBlock lba;
                              fl3 = simulate_map_write E fl2 event;
                              st3 = st2\<lparr>stats := (stats st2)
                                      \<lparr>numLogMergeSwitch := numLogMergeSwitch (stats st2) + 1\<rparr>\<rparr>
                          in Inr (isSequential, st3, fl3))
             else Inr (isSequential, st, fl))"

text \<open>
  The copy loop of \<open>random_merge\<close> (lines 331 to 363), from index \<open>i\<close> on.
  It threads the statistics, the collaborators' state and the list of the
  read events issued so far; each issued read event carries the address it
  reads and, in \<open>ev_next\<close>, the address of the chained write.  \<open>d\<close> is
  \<open>data_list[lba]\<close>, which the loop does not change.
\<close>

function merge_loop ::
  "'f env \<Rightarrow> config \<Rightarrow> LogPageBlock \<Rightarrow> int \<Rightarrow> addr \<Rightarrow> event \<Rightarrow> nat
     \<Rightarrow> stats \<times> 'f \<times> event list \<Rightarrow> stats \<times> 'f \<times> event list" where
  "merge_loop E C lb d newDataBlock event i acc =
     (if i < BLOCK_SIZE C
      then (case acc of (sts, fl, issued) \<Rightarrow>
        (case (if pages lb ! page_of C (ev_logical event) \<noteq> - 1
               then Some (ulong (address lb + pages lb ! i))
               else if d \<noteq> - 1 then Some (d + int i)
               else None)
         of None \<Rightarrow> merge_loop E C lb d newDataBlock event (i + 1) acc
          | Some readAddress \<Rightarrow>
              if get_state E fl readAddress = INVALID
              then merge_loop E C lb d newDataBlock event (i + 1) acc
              else (let readEvent = \<lparr> ev_type = READ, ev_logical = ev_logical event,
                                      ev_address = readAddress, ev_noop = False,
                                      ev_next = Some (newDataBlock + int i) \<rparr>;
                        fl1 = snd (issue E fl readEvent);
                        fl2 = consolidate_metaevent E fl1 readEvent;
                        sts1 = sts\<lparr>numFTLRead := numFTLRead sts + 1,
                                   numFTLWrite := numFTLWrite sts + 1\<rparr>
                    in merge_loop E C lb d newDataBlock event (i + 1)
                         (sts1, fl2, issued @ [readEvent]))))
      else acc)"
  by pat_completeness auto
termination
  by (relation "measure (\<lambda>(E, C, lb, d, n, event, i, acc). BLOCK_SIZE C - i)") auto

declare merge_loop.simps [simp del]

text \<open>
  \<open>FtlImpl_Bast::random_merge\<close>.  Besides the \<open>true\<close> it returns and the two
  states, the result lists the read events the loop issued.
\<close>

definition random_merge ::
  "'f env \<Rightarrow> config \<Rightarrow> ftl \<Rightarrow> 'f \<Rightarrow> nat \<Rightarrow> int \<Rightarrow> event
     \<Rightarrow> error + (bool \<times> ftl \<times> 'f \<times> event list)" where
  "random_merge E C st fl logBlock lba event =
     (case get_free_block E fl DATA of None \<Rightarrow> Inl NoFreeBlock
      | Some (newDataBlock, fl0) \<Rightarrow>
     (case deref st logBlock of Inl e \<Rightarrow> Inl e
      | Inr lb \<Rightarrow>
     (case data_at st lba of Inl e \<Rightarrow> Inl e
      | Inr d \<Rightarrow>
          (case merge_loop E C lb d newDataBlock event 0 (stats st, fl0, []) of
             (sts, fl1, issued) \<Rightarrow>
               let fl2 = invalidate E fl1 (address lb) LOG;
                   fl3 = (if d \<noteq> - 1 then invalidate E fl2 d DATA else fl2);
                   st1 = st\<lparr>data_list := (data_list st)[nat lba := newDataBlock], stats := sts\<rparr>;
                   fl4 = simulate_map_write E fl3 event;
                   st2 = dispose_logblock st1 logBlock lba;
                   st3 = st2\<lparr>stats := (stats st2)
                           \<lparr>numLogMergeFull := numLogMergeFull (stats st2) + 1\<rparr>\<rparr>
               in Inr (True, st3, fl4, issued)))))"

text \<open>
  The merge decision both callers write as
  \<open>if (!is_sequential(b, k, event)) random_merge(b, k, event);\<close>.
\<close>

definition merge_decision ::
  "'f env \<Rightarrow> config \<Rightarrow> ftl \<Rightarrow> 'f \<Rightarrow> nat \<Rightarrow> int \<Rightarrow> event \<Rightarrow> error + (ftl \<times> 'f)" where
  "merge_decision E C st fl logBlock lba event =
     (case is_sequential E C st fl logBlock lba event of Inl e \<Rightarrow> Inl e
      | Inr (b, st1, fl1) \<Rightarrow>
          if \<not> b
          then (case random_merge E C st1 fl1 logBlock lba event of Inl e \<Rightarrow> Inl e
                | Inr (_, st2, fl2, _) \<Rightarrow> Inr (st2, fl2))
          else Inr (st1, fl1))"

subsection \<open>Allocation of a log block\<close>

text \<open>
  \<open>FtlImpl_Bast::allocate_new_logblock\<close>.  The parameter \<open>logBlock\<close> is a
  \<open>LogPageBlock*\<close> passed by value: the assignment \<open>logBlock = new LogPageBlock()\<close>
  changes the callee's copy only, so the new pointer reaches the caller
  through \<open>log_map[lba]\<close> and in no other way.
\<close>

definition allocate_new_logblock ::
  "'f env \<Rightarrow> config \<Rightarrow> ftl \<Rightarrow> 'f \<Rightarrow> nat option \<Rightarrow> int \<Rightarrow> event \<Rightarrow> error + (ftl \<times> 'f)" where
  "allocate_new_logblock E C st fl logBlock lba event =
     (case (if length (log_map st) \<ge> BAST_LOG_PAGE_LIMIT C
            then (case log_map st of
                    [] \<Rightarrow> Inl EmptyLogMap
                  | (exLogicalBlock, exLogBlock) # _ \<Rightarrow>
                      merge_decision E C st fl exLogBlock exLogicalBlock event)
            else Inr (st, fl))
      of Inl e \<Rightarrow> Inl e
       | Inr (st1, fl1) \<Rightarrow>
           (case get_free_block E fl1 LOG of None \<Rightarrow> Inl NoFreeBlock
            | Some (a, fl2) \<Rightarrow>
                let p = next_ptr st1;
                    lb = (new_LogPageBlock C)\<lparr>address := a\<rparr>
                in Inr (st1\<lparr>heap := (heap st1)(p \<mapsto> lb),
                            next_ptr := p + 1,
                            log_map := lm_assign lba p (log_map st1)\<rparr>, fl2)))"

subsection \<open>write\<close>

text \<open>
  \<open>FtlImpl_Bast::write\<close> (named \<open>write_ftl\<close>: \<open>write\<close> is a keyword of the
  proof language).  In the branch of a full log block the pointer
  \<open>logBlock\<close> is the one read from \<open>log_map[lba]\<close> before the merge:
  \<open>allocate_new_logblock\<close> cannot change it, and lines 178 and 179
  dereference it.
\<close>

definition write_ftl ::
  "'f env \<Rightarrow> config \<Rightarrow> ftl \<Rightarrow> 'f \<Rightarrow> event \<Rightarrow> error + (status \<times> event \<times> ftl \<times> 'f)" where
  "write_ftl E C st fl event =
     (let lba = block_of st (ev_logical event);
          page = page_of C (ev_logical event)
      in case (if lm_find (log_map st) lba = None
               then allocate_new_logblock E C st fl None lba event
               else Inr (st, fl))
         of Inl e \<Rightarrow> Inl e
          | Inr (st0, fl0) \<Rightarrow>
        (let st1 = bump_MemoryRead st0
         in case lm_find (log_map st1) lba of None \<Rightarrow> Inl NullDeref
            | Some logBlock \<Rightarrow>
           (case deref st1 logBlock of Inl e \<Rightarrow> Inl e
            | Inr lb \<Rightarrow>
              (let numValid = get_num_valid E fl0 (address lb)
               in case
                    (if numValid < BLOCK_SIZE C
                     then Inr (st1\<lparr>heap := (heap st1)
                                  (logBlock \<mapsto> lb\<lparr>pages := (pages lb)[page := int numValid]\<rparr>)\<rparr>,
                               fl0,
                               event\<lparr>ev_address := get_free_page E fl0 (address lb)\<rparr>)
                     else (case merge_decision E C st1 fl0 logBlock lba event of Inl e \<Rightarrow> Inl e
                           | Inr (st2, fl2) \<Rightarrow>
                          (case allocate_new_logblock E C st2 fl2 (Some logBlock) lba event of
                             Inl e \<Rightarrow> Inl e
                           | Inr (st3, fl3) \<Rightarrow>
                          (case deref st3 logBlock of Inl e \<Rightarrow> Inl e
                           | Inr lb' \<Rightarrow>
                               Inr (st3\<lparr>heap := (heap st3)
                                      (logBlock \<mapsto> lb'\<lparr>pages := (pages lb')[page := 0]\<rparr>)\<rparr>,
                                    fl3,
                                    event\<lparr>ev_address := address lb'\<rparr>)))))
                  of Inl e \<Rightarrow> Inl e
                   | Inr (st4, fl4, event1) \<Rightarrow>
                       let fl5 = insert_events E fl4 event1;
                           st5 = st4\<lparr>stats := (stats st4)
                                   \<lparr>numFTLWrite := numFTLWrite (stats st4) + 1\<rparr>\<rparr>;
                           (r, fl6) = issue E fl5 event1
                       in Inr (r, event1, st5, fl6)))))"

subsection \<open>trim\<close>

text \<open>
  \<open>FtlImpl_Bast::trim\<close>.  \<open>returnAddress\<close> is a default-constructed \<open>Address\<close>
  (linear address 0) unless the page is in the log block.
\<close>

definition trim ::
  "'f env \<Rightarrow> config \<Rightarrow> ftl \<Rightarrow> 'f \<Rightarrow> event \<Rightarrow> error + (status \<times> event \<times> ftl \<times> 'f)" where
  "trim E C st fl event =
     (let lookupBlock = block_of st (ev_logical event);
          page = page_of C (ev_logical event);
          logBlock = lm_find (log_map st) lookupBlock;
          st1 = bump_MemoryRead st
      in case deref_opt st logBlock of Inl e \<Rightarrow> Inl e
         | Inr lbo \<Rightarrow>
        (let (returnAddress, st2, fl2) =
               (if lbo \<noteq> None \<and> pages (the lbo) ! page \<noteq> - 1
                then (let p = the logBlock;
                          lb = the lbo;
                          returnAddress = address lb + pages lb ! page;
                          fl1 = invalidate_page E fl returnAddress;
                          st' = st1\<lparr>heap := (heap st1)
                                  (p \<mapsto> lb\<lparr>pages := (pages lb)[page := - 1]\<rparr>)\<rparr>
                      in if blk_state E fl1 returnAddress = INACTIVE
                         then (returnAddress, dispose_logblock st' p lookupBlock,
                               erase_and_invalidate E fl1 returnAddress LOG)
                         else (returnAddress, st', fl1))
                else (0, st1, fl))
         in case data_at st2 lookupBlock of Inl e \<Rightarrow> Inl e
            | Inr d \<Rightarrow>
              (let (st3, fl3) =
                     (if d \<noteq> - 1
                      then (let dataAddress = d + int (ev_logical event mod BLOCK_SIZE C);
                                fl' = invalidate_page E fl2 dataAddress
                            in if blk_state E fl' dataAddress = INACTIVE
                               then (st2\<lparr>data_list := (data_list st2)[nat lookupBlock := - 1]\<rparr>,
                                     erase_and_invalidate E fl' dataAddress DATA)
                               else (st2, fl'))
                      else (st2, fl2));
                   event1 = event\<lparr>ev_address := returnAddress, ev_noop := True\<rparr>;
                   fl4 = simulate_map_read E fl3 event1;
                   fl5 = insert_events E fl4 event1;
                   st4 = st3\<lparr>stats := (stats st3)
                           \<lparr>numFTLTrim := numFTLTrim (stats st3) + 1\<rparr>\<rparr>;
                   (r, fl6) = issue E fl5 event1
               in Inr (r, event1, st4, fl6))))"

subsection \<open>Well-formed states\<close>

text \<open>
  What every state built by the constructor and the operations satisfies:
  a positive block size, the keys of \<open>log_map\<close> in strictly ascending order,
  no log block shared by two keys, and every pointer in \<open>log_map\<close> allocated
  before \<open>next_ptr\<close> and pointing to a live object with \<open>BLOCK_SIZE\<close> slots.
\<close>

definition lb_ok :: "config \<Rightarrow> ftl \<Rightarrow> nat \<Rightarrow> bool" where
  "lb_ok C st p =
     (case heap st p of None \<Rightarrow> False | Some lb \<Rightarrow> length (pages lb) = BLOCK_SIZE C)"

definition wf :: "config \<Rightarrow> ftl \<Rightarrow> bool" where
  "wf C st \<longleftrightarrow>
     0 < BLOCK_SIZE C \<and>
     sorted_wrt (<) (map fst (log_map st)) \<and>
     distinct (map snd (log_map st)) \<and>
     list_all (\<lambda>(k, p). p < next_ptr st \<and> lb_ok C st p) (log_map st)"

subsection \<open>Sequences of host requests\<close>

datatype request = Read nat | Write nat | Trim nat

definition host_event :: "event_type \<Rightarrow> nat \<Rightarrow> event" where
  "host_event t la =
     \<lparr> ev_type = t, ev_logical = la, ev_address = 0, ev_noop = False, ev_next = None \<rparr>"

definition exec ::
  "'f env \<Rightarrow> config \<Rightarrow> ftl \<Rightarrow> 'f \<Rightarrow> request \<Rightarrow> error + (status \<times> event \<times> ftl \<times> 'f)" where
  "exec E C st fl rq =
     (case rq of
        Read la \<Rightarrow> read E C st fl (host_event READ la)
      | Write la \<Rightarrow> write_ftl E C st fl (host_event WRITE la)
      | Trim la \<Rightarrow> trim E C st fl (host_event TRIM la))"

text \<open>One request after the other; the first error ends the run.\<close>

fun run :: "'f env \<Rightarrow> config \<Rightarrow> ftl \<Rightarrow> 'f \<Rightarrow> request list \<Rightarrow> error + (ftl \<times> 'f)" where
  "run E C st fl [] = Inr (st, fl)"
| "run E C st fl (rq # rqs) =
     (case exec E C st fl rq of
        Inl e \<Rightarrow> Inl e
      | Inr (r, ev, st', fl') \<Rightarrow> run E C st' fl' rqs)"

subsection \<open>The specification's reading of the operations\<close>

text \<open>The log block the Log Map holds for a block index, if any.\<close>

definition log_block_of :: "ftl \<Rightarrow> int \<Rightarrow> LogPageBlock option" where
  "log_block_of st b = (case lm_find (log_map st) b of None \<Rightarrow> None | Some p \<Rightarrow> heap st p)"

text \<open>The address of an unmapped read, \<open>Address(0, PAGE)\<close>.\<close>

definition sentinel :: addr where
  "sentinel = 0"

text \<open>
  Section 4.2 of the spec, steps 1 to 4: a set slot of the log block first,
  the sentinel when there is no Block Map entry either, the Block Map entry
  plus the page offset otherwise, and the sentinel again when the page so
  found is tracked as invalid.
\<close>

definition spec_lookup :: "config \<Rightarrow> ftl \<Rightarrow> nat \<Rightarrow> addr" where
  "spec_lookup C st la =
     (let block_index = block_of st la;
          page_offset = la mod BLOCK_SIZE C;
          from_block_map =
            (if data_list st ! nat block_index = - 1 then sentinel
             else data_list st ! nat block_index + int page_offset)
      in case log_block_of st block_index of
           None \<Rightarrow> from_block_map
         | Some lb \<Rightarrow>
             if pages lb ! page_offset \<noteq> - 1 then address lb + pages lb ! page_offset
             else from_block_map)"

definition spec_read :: "'f env \<Rightarrow> config \<Rightarrow> ftl \<Rightarrow> 'f \<Rightarrow> nat \<Rightarrow> addr" where
  "spec_read E C st fl la =
     (if get_state E fl (spec_lookup C st la) = INVALID then sentinel
      else spec_lookup C st la)"

text \<open>A block size the address shift can represent exactly.\<close>

definition power_of_two :: "nat \<Rightarrow> bool" where
  "power_of_two n \<longleftrightarrow> (\<exists>k \<le> n. n = 2 ^ k)"

text \<open>
  Section 4.6 of the spec, step 2: the source of the copy to offset \<open>i\<close> of
  the new data block is the log-block slot for \<open>i\<close> if set, else offset \<open>i\<close>
  of the existing data block if there is one, else nothing.
\<close>

definition spec_merge_source :: "LogPageBlock \<Rightarrow> int \<Rightarrow> nat \<Rightarrow> addr option" where
  "spec_merge_source lb d i =
     (if pages lb ! i \<noteq> - 1 then Some (address lb + pages lb ! i)
      else if d \<noteq> - 1 then Some (d + int i)
      else None)"

subsection \<open>A reference flash array\<close>

text \<open>
  Modelled from the spec: an instance of the collaborators of section 6,
  used to run the operations on concrete inputs.  A page is \<open>EMPTY\<close> until a
  write is issued to it, \<open>VALID\<close> afterwards, \<open>INVALID\<close> once invalidated (an
  event flagged as no-op changes nothing); a
  block is \<open>INACTIVE\<close> when all its pages are invalid ("All pages invalid,
  force an erase" in \<open>trim\<close>) and \<open>FREE\<close> when all are empty; the valid-page
  count of a block is the number of pages programmed since its erase and
  the next free page follows them (pages of a block are programmed in
  order); free blocks are handed out from a pool; invalidating a block only
  queues it; erasing empties it.
\<close>

record flash =
  pstate :: "addr \<Rightarrow> page_state"
  pool :: "addr list"

definition block_pages :: "config \<Rightarrow> addr \<Rightarrow> addr list" where
  "block_pages C a =
     map (\<lambda>i. a - a mod int (BLOCK_SIZE C) + int i) [0..<BLOCK_SIZE C]"

definition ref_issue :: "flash \<Rightarrow> event \<Rightarrow> status \<times> flash" where
  "ref_issue fl ev =
     (SUCCESS,
      if ev_noop ev then fl
      else (case ev_type ev of
              WRITE \<Rightarrow> fl\<lparr>pstate := (pstate fl)(ev_address ev := VALID)\<rparr>
            | READ \<Rightarrow> (case ev_next ev of None \<Rightarrow> fl
                       | Some w \<Rightarrow> fl\<lparr>pstate := (pstate fl)(w := VALID)\<rparr>)
            | TRIM \<Rightarrow> fl))"

definition ref_env :: "config \<Rightarrow> flash env" where
  "ref_env C =
     \<lparr> get_state = (\<lambda>fl a. pstate fl a),
       get_num_valid = (\<lambda>fl a. length (filter (\<lambda>x. pstate fl x \<noteq> EMPTY) (block_pages C a))),
       get_free_page = (\<lambda>fl a. a + int (length (filter (\<lambda>x. pstate fl x \<noteq> EMPTY)
                                                        (block_pages C a)))),
       blk_state = (\<lambda>fl a. if list_all (\<lambda>x. pstate fl x = INVALID) (block_pages C a) then INACTIVE
                            else if list_all (\<lambda>x. pstate fl x = EMPTY) (block_pages C a) then FREE
                            else ACTIVE),
       invalidate_page = (\<lambda>fl a. fl\<lparr>pstate := (pstate fl)(a := INVALID)\<rparr>),
       issue = ref_issue,
       get_free_block = (\<lambda>fl t. case pool fl of [] \<Rightarrow> None | b # bs \<Rightarrow> Some (b, fl\<lparr>pool := bs\<rparr>)),
       invalidate = (\<lambda>fl a t. fl),
       erase_and_invalidate =
         (\<lambda>fl a t. fl\<lparr>pstate := (\<lambda>x. if x \<in> set (block_pages C a) then EMPTY else pstate fl x)\<rparr>),
       promote_block = (\<lambda>fl t. fl),
       simulate_map_read = (\<lambda>fl ev. fl),
       simulate_map_write = (\<lambda>fl ev. fl),
       insert_events = (\<lambda>fl ev. fl),
       consolidate_metaevent = (\<lambda>fl ev. fl) \<rparr>"

text \<open>An erased flash array whose pool holds the given blocks.\<close>

definition fresh_flash :: "addr list \<Rightarrow> flash" where
  "fresh_flash bs = \<lparr> pstate = (\<lambda>_. EMPTY), pool = bs \<rparr>"

text \<open>A small configuration: four logical blocks of two pages, one log block.\<close>

definition cfg2 :: config where
  "cfg2 = \<lparr> BLOCK_SIZE = 2, BAST_LOG_PAGE_LIMIT = 1, SSD_SIZE = 4, PACKAGE_SIZE = 1,
            DIE_SIZE = 1, PLANE_SIZE = 1 \<rparr>"

text \<open>The same configuration with blocks of three pages.\<close>

definition cfg3 :: config where
  "cfg3 = cfg2\<lparr>BLOCK_SIZE := 3\<rparr>"

subsection \<open>Observations of a run\<close>

text \<open>The physical address an operation resolved its event to.\<close>

definition resolved_address :: "error + (status \<times> event \<times> ftl \<times> 'f) \<Rightarrow> error + addr" where
  "resolved_address res =
     (case res of Inl e \<Rightarrow> Inl e | Inr (r, ev, st, fl) \<Rightarrow> Inr (ev_address ev))"

text \<open>The address a read resolves to after a sequence of requests.\<close>

definition read_after ::
  "'f env \<Rightarrow> config \<Rightarrow> ftl \<Rightarrow> 'f \<Rightarrow> request list \<Rightarrow> nat \<Rightarrow> error + addr" where
  "read_after E C st fl rqs la =
     (case run E C st fl rqs of
        Inl e \<Rightarrow> Inl e
      | Inr (st', fl') \<Rightarrow> resolved_address (read E C st' fl' (host_event READ la)))"

text \<open>The Log Map after a sequence of requests, with the slot table of each log block.\<close>

definition slots_after ::
  "'f env \<Rightarrow> config \<Rightarrow> ftl \<Rightarrow> 'f \<Rightarrow> request list \<Rightarrow> error + (int \<times> int list option) list" where
  "slots_after E C st fl rqs =
     (case run E C st fl rqs of
        Inl e \<Rightarrow> Inl e
      | Inr (st', fl') \<Rightarrow> Inr (map (\<lambda>(k, p). (k, map_option pages (heap st' p))) (log_map st')))"

text \<open>The Block Map after a sequence of requests.\<close>

definition data_list_after ::
  "'f env \<Rightarrow> config \<Rightarrow> ftl \<Rightarrow> 'f \<Rightarrow> request list \<Rightarrow> error + int list" where
  "data_list_after E C st fl rqs =
     (case run E C st fl rqs of Inl e \<Rightarrow> Inl e | Inr (st', fl') \<Rightarrow> Inr (data_list st'))"

text \<open>
  A state of the small configuration with one log block, for logical block
  0, at physical block 2: logical page 1 is in its physical page 0.
\<close>

definition st_log2 :: ftl where
  "st_log2 = (FtlImpl_Bast cfg2)
     \<lparr> log_map := [(0, 0)],
       heap := [0 \<mapsto> \<lparr> pages = [- 1, 0], aPages = [- 1, - 1], numPages = 0, address = 2 \<rparr>],
       next_ptr := 1 \<rparr>"

text \<open>
  A state of the small configuration whose log block for logical block 0,
  at physical block 2, was filled in logical order.
\<close>

definition st_seq2 :: ftl where
  "st_seq2 = (FtlImpl_Bast cfg2)
     \<lparr> log_map := [(0, 0)],
       heap := [0 \<mapsto> \<lparr> pages = [0, 1], aPages = [- 1, - 1], numPages = 0, address = 2 \<rparr>],
       next_ptr := 1 \<rparr>"

text \<open>
  The Log Map that the eviction step of an allocation leaves: without its
  first entry when the map is at or above the limit.
\<close>

definition after_eviction :: "config \<Rightarrow> (int \<times> nat) list \<Rightarrow> (int \<times> nat) list" where
  "after_eviction C m = (if length m \<ge> BAST_LOG_PAGE_LIMIT C then tl m else m)"

text \<open>The error that ends a sequence of requests, if one does.\<close>

definition run_error ::
  "'f env \<Rightarrow> config \<Rightarrow> ftl \<Rightarrow> 'f \<Rightarrow> request list \<Rightarrow> error option" where
  "run_error E C st fl rqs = (case run E C st fl rqs of Inl e \<Rightarrow> Some e | Inr x \<Rightarrow> None)"

text \<open>
  Section 4.7 of the spec, step 1: if the log block of the address's block
  has a set slot for the page, the physical page is marked invalid and the
  slot cleared; if the flash array then reports the physical block as all
  invalid, the block is erased and the entry dropped from the Log Map.
\<close>

definition spec_trim_log :: "'f env \<Rightarrow> config \<Rightarrow> ftl \<Rightarrow> 'f \<Rightarrow> nat \<Rightarrow> ftl \<times> 'f" where
  "spec_trim_log E C st fl la =
     (let block_index = block_of st la;
          page_offset = la mod BLOCK_SIZE C
      in case lm_find (log_map st) block_index of
           None \<Rightarrow> (st, fl)
         | Some p \<Rightarrow>
             (case heap st p of
                None \<Rightarrow> (st, fl)
              | Some lb \<Rightarrow>
                  if pages lb ! page_offset = - 1 then (st, fl)
                  else (let a = address lb + pages lb ! page_offset;
                            fl1 = invalidate_page E fl a
                        in if blk_state E fl1 a = INACTIVE
                           then (st\<lparr>log_map := lm_erase block_index (log_map st),
                                     heap := (heap st)(p := None)\<rparr>,
                                 erase_and_invalidate E fl1 a LOG)
                           else (st\<lparr>heap := (heap st)
                                       (p \<mapsto> lb\<lparr>pages := (pages lb)[page_offset := - 1]\<rparr>)\<rparr>,
                                 fl1))))"

text \<open>
  Section 4.7, step 2: if the block has a Block Map entry, the page at the
  matching offset is marked invalid; if the flash array then reports the
  data block as all invalid, the entry is unmapped and the block erased.
\<close>

definition spec_trim_data :: "'f env \<Rightarrow> config \<Rightarrow> ftl \<Rightarrow> 'f \<Rightarrow> nat \<Rightarrow> ftl \<times> 'f" where
  "spec_trim_data E C st fl la =
     (let block_index = block_of st la;
          page_offset = la mod BLOCK_SIZE C;
          d = data_list st ! nat block_index
      in if d = - 1 then (st, fl)
         else (let a = d + int page_offset;
                   fl1 = invalidate_page E fl a
               in if blk_state E fl1 a = INACTIVE
                  then (st\<lparr>data_list := (data_list st)[nat block_index := - 1]\<rparr>,
                        erase_and_invalidate E fl1 a DATA)
                  else (st, fl1)))"


text \<open>The small configuration with room for two log blocks.\<close>

definition cfg2x2 :: config where
  "cfg2x2 = cfg2\<lparr>BAST_LOG_PAGE_LIMIT := 2\<rparr>"

text \<open>The Log Map an allocation leaves.\<close>

definition allocated_log_map :: "error + (ftl \<times> 'f) \<Rightarrow> error + (int \<times> nat) list" where
  "allocated_log_map res = (case res of Inl e \<Rightarrow> Inl e | Inr (st, fl) \<Rightarrow> Inr (log_map st))"

text \<open>The copies of a random merge: the page each issued read takes and the chained write.\<close>

definition merge_copies ::
  "error + (bool \<times> ftl \<times> 'f \<times> event list) \<Rightarrow> error + (addr \<times> addr option) list" where
  "merge_copies res =
     (case res of Inl e \<Rightarrow> Inl e
      | Inr (b, st, fl, issued) \<Rightarrow> Inr (map (\<lambda>e. (ev_address e, ev_next e)) issued))"

text \<open>
  The source the spec gives each offset of the new data block, for the log
  block at \<open>p\<close> and the Block Map entry of \<open>lba\<close>.
\<close>

definition spec_merge_sources :: "config \<Rightarrow> ftl \<Rightarrow> nat \<Rightarrow> int \<Rightarrow> error + addr option list" where
  "spec_merge_sources C st p lba =
     (case deref st p of Inl e \<Rightarrow> Inl e
      | Inr lb \<Rightarrow>
          (case data_at st lba of Inl e \<Rightarrow> Inl e
           | Inr d \<Rightarrow> Inr (map (spec_merge_source lb d) [0..<BLOCK_SIZE C])))"

text \<open>
  A random merge after a sequence of requests: its copies, and the sources
  the spec gives.
\<close>

definition merge_after ::
  "'f env \<Rightarrow> config \<Rightarrow> ftl \<Rightarrow> 'f \<Rightarrow> request list \<Rightarrow> nat \<Rightarrow> int \<Rightarrow> event
     \<Rightarrow> error + ((addr \<times> addr option) list \<times> addr option list)" where
  "merge_after E C st fl rqs p lba ev =
     (case run E C st fl rqs of Inl e \<Rightarrow> Inl e
      | Inr (st', fl') \<Rightarrow>
          (case merge_copies (random_merge E C st' fl' p lba ev) of Inl e \<Rightarrow> Inl e
           | Inr cs \<Rightarrow>
               (case spec_merge_sources C st' p lba of Inl e \<Rightarrow> Inl e
                | Inr ss \<Rightarrow> Inr (cs, ss))))"

text \<open>
  A configuration whose block count \<open>65536 * 65536\<close> does not fit a \<open>uint\<close>.
\<close>

definition cfg_wrap :: config where
  "cfg_wrap = cfg2\<lparr>SSD_SIZE := 65536, PACKAGE_SIZE := 65536\<rparr>"

text \<open>
  The Log Map built from the empty map by the assignments \<open>log_map[k] = p\<close>
  of a list of entries, in the order of the list.
\<close>

definition inserted :: "(int \<times> nat) list \<Rightarrow> (int \<times> nat) list" where
  "inserted ins = foldl (\<lambda>m (k, p). lm_assign k p m) [] ins"

text \<open>
  A state with room for two log blocks and a full Log Map: the log block of
  logical block 2 (pointer 0, physical block 2) was allocated first, the
  log block of logical block 0 (pointer 1, physical block 4) second; each
  holds one page.
\<close>

definition st_two :: ftl where
  "st_two = (FtlImpl_Bast cfg2x2)
     \<lparr> log_map := [(0, 1), (2, 0)],
       heap := [0 \<mapsto> \<lparr> pages = [0, - 1], aPages = [- 1, - 1], numPages = 0, address = 2 \<rparr>,
                1 \<mapsto> \<lparr> pages = [0, - 1], aPages = [- 1, - 1], numPages = 0, address = 4 \<rparr>],
       next_ptr := 2 \<rparr>"

text \<open>Eight logical blocks of two pages, room for three log blocks.\<close>

definition cfg2x3 :: config where
  "cfg2x3 = cfg2\<lparr>BAST_LOG_PAGE_LIMIT := 3, SSD_SIZE := 8\<rparr>"

text \<open>
  The invariant behind the reads of addresses never written, for the set
  \<open>W\<close> of the logical addresses written so far: a set slot of a log block
  belongs to a written address, every block with a Log Map entry has a
  written address, and so has every block with a Block Map entry.
\<close>

definition tracked :: "config \<Rightarrow> nat set \<Rightarrow> ftl \<Rightarrow> bool" where
  "tracked C W st \<longleftrightarrow>
     (\<forall>b lb i. log_block_of st b = Some lb \<and> i < BLOCK_SIZE C \<and> pages lb ! i \<noteq> - 1
        \<longrightarrow> (\<exists>la \<in> W. block_of st la = b \<and> page_of C la = i))
   \<and> (\<forall>b \<in> fst ` set (log_map st). \<exists>la \<in> W. block_of st la = b)
   \<and> (\<forall>n < length (data_list st). data_list st ! n \<noteq> - 1
        \<longrightarrow> (\<exists>la \<in> W. block_of st la = int n))"

section \<open>Properties\<close>

subsection \<open>The address shift computed by the constructor\<close>

lemma halving_loop_pos: "0 < n \<Longrightarrow> halving_loop n c = halving_loop (n div 2) (c + 1)"
  by (subst halving_loop.simps) simp

lemma halving_loop_zero: "halving_loop 0 c = c"
  by (subst halving_loop.simps) simp

lemma halving_loop_acc: "halving_loop n c = c + halving_loop n 0"
proof (induction n arbitrary: c rule: less_induct)
  case (less n)
  show ?case
  proof (cases "0 < n")
    case True
    then have lt: "n div 2 < n" by simp
    have "halving_loop n c = halving_loop (n div 2) (c + 1)"
      using True by (rule halving_loop_pos)
    also have "\<dots> = (c + 1) + halving_loop (n div 2) 0"
      using less.IH [OF lt] .
    also have "halving_loop n 0 = halving_loop (n div 2) (0 + 1)"
      using True by (rule halving_loop_pos)
    then have "(c + 1) + halving_loop (n div 2) 0 = c + halving_loop n 0"
      using less.IH [OF lt, of "0 + 1"] by simp
    finally show ?thesis .
  next
    case False
    then show ?thesis by (simp add: halving_loop_zero)
  qed
qed

lemma halving_loop_bounds:
  "0 < n \<Longrightarrow> 2 ^ halving_loop n 0 \<le> 2 * n \<and> n < 2 ^ halving_loop n 0"
proof (induction n rule: less_induct)
  case (less n)
  have step: "halving_loop n 0 = 1 + halving_loop (n div 2) 0"
    using less.prems halving_loop_pos [of n 0] halving_loop_acc [of "n div 2" 1] by simp
  show ?case
  proof (cases "n div 2 = 0")
    case True
    then have "n = 1" using less.prems by (simp add: div_eq_0_iff) 
    then show ?thesis using step True by (simp add: halving_loop_zero)
  next
    case False
    then have pos: "0 < n div 2" and lt: "n div 2 < n" using less.prems by simp_all
    from less.IH [OF lt pos]
    have a: "2 ^ halving_loop (n div 2) 0 \<le> 2 * (n div 2)"
      and b: "n div 2 < 2 ^ halving_loop (n div 2) 0" by simp_all
    have "2 * (n div 2) \<le> n" by simp
    moreover have "n < 2 * (n div 2) + 2" by presburger
    ultimately show ?thesis using a b step by simp
  qed
qed

lemma shift_bounds:
  assumes "0 < n"
  shows "2 ^ halving_loop (n div 2) 0 \<le> n \<and> n < 2 ^ (halving_loop (n div 2) 0 + 1)"
proof (cases "n div 2 = 0")
  case True
  then have "n = 1" using assms by (simp add: div_eq_0_iff)
  then show ?thesis by (simp add: halving_loop_zero)
next
  case False
  then have "0 < n div 2" by simp
  from halving_loop_bounds [OF this]
  have a: "2 ^ halving_loop (n div 2) 0 \<le> 2 * (n div 2)"
    and b: "n div 2 < 2 ^ halving_loop (n div 2) 0" by simp_all
  have "2 * (n div 2) \<le> n" by simp
  moreover have "n < 2 * (n div 2) + 2" by presburger
  ultimately show ?thesis using a b by simp
qed

lemma shift_exact:
  assumes "0 < n"
  shows "2 ^ halving_loop (n div 2) 0 = n \<longleftrightarrow> power_of_two n"
proof
  assume e: "2 ^ halving_loop (n div 2) 0 = n"
  have "halving_loop (n div 2) 0 < 2 ^ halving_loop (n div 2) 0" by (rule less_exp)
  then have "halving_loop (n div 2) 0 \<le> n" using e by simp
  then show "power_of_two n" unfolding power_of_two_def using e [symmetric] by blast
next
  assume "power_of_two n"
  then obtain k where k: "n = 2 ^ k" unfolding power_of_two_def by blast
  let ?s = "halving_loop (n div 2) 0"
  from shift_bounds [OF assms] have "(2::nat) ^ ?s \<le> 2 ^ k" "(2::nat) ^ k < 2 ^ (?s + 1)"
    using k by simp_all
  then have "?s \<le> k" "k < ?s + 1" by (simp_all del: power_Suc)
  then have "k = ?s" by simp
  then show "2 ^ ?s = n" using k by simp
qed

lemma numBlocks_cfg2: "numBlocks cfg2 = 4"
  by (simp add: numBlocks_def wrap_uint_def cfg2_def)

lemma data_list_fresh: "data_list (FtlImpl_Bast C) = replicate (numBlocks C) (- 1)"
  by (simp add: FtlImpl_Bast_def)

lemma data_list_cfg2: "data_list (FtlImpl_Bast cfg2) = [- 1, - 1, - 1, - 1]"
  unfolding data_list_fresh numBlocks_cfg2 by (simp add: numeral_eq_Suc)

lemma nat_wrap_uint: "nat (wrap_uint n) = n mod 2 ^ 32"
  by (simp add: wrap_uint_def nat_mod_distrib)

lemma numBlocks_wrap:
  "numBlocks C = (SSD_SIZE C * PACKAGE_SIZE C * DIE_SIZE C * PLANE_SIZE C) mod 2 ^ 32"
  unfolding numBlocks_def by (rule nat_wrap_uint)

lemma data_list_wrap: "data_list (FtlImpl_Bast cfg_wrap) = []"
  by (simp add: data_list_fresh numBlocks_def wrap_uint_def cfg_wrap_def cfg2_def)

text \<open>
  With \<open>2^29\<close> blocks the product \<open>numBlocks * 4\<close> is \<open>2^31\<close>, negative as an
  \<open>int\<close>: the first counting statement does not run.
\<close>

lemma addressSize_wrap:
  "addressSize (FtlImpl_Bast (cfg2\<lparr>SSD_SIZE := 536870912\<rparr>)) = 0"
  by (simp add: FtlImpl_Bast_def wrap_uint_def int_of_uint_def cfg2_def halving_loop_zero)

text \<open>
  Claim C9, as the code has it.  The constructor validates nothing and has
  no failure path: for every positive block size it yields an engine with
  an empty Log Map and a Block Map of unmapped entries, whose address shift
  \<open>s\<close> is the integer logarithm of the block size, \<open>2^s \<le> BLOCK_SIZE < 2^(s+1)\<close>.
  The shift is exact precisely when the block size is a power of two.  The
  Block Map has \<open>numBlocks\<close> entries, the product of the four size constants
  as the \<open>uint\<close> of line 91 holds it: modulo \<open>2^32\<close>.
\<close>

theorem constructor_address_shift:
  assumes "0 < BLOCK_SIZE C"
  shows "2 ^ addressShift (FtlImpl_Bast C) \<le> BLOCK_SIZE C
       \<and> BLOCK_SIZE C < 2 ^ (addressShift (FtlImpl_Bast C) + 1)
       \<and> (2 ^ addressShift (FtlImpl_Bast C) = BLOCK_SIZE C \<longleftrightarrow> power_of_two (BLOCK_SIZE C))
       \<and> log_map (FtlImpl_Bast C) = []
       \<and> data_list (FtlImpl_Bast C) = replicate (numBlocks C) (- 1)
       \<and> numBlocks C = (SSD_SIZE C * PACKAGE_SIZE C * DIE_SIZE C * PLANE_SIZE C) mod 2 ^ 32"
  using shift_bounds [OF assms] shift_exact [OF assms] numBlocks_wrap [of C]
  by (simp add: FtlImpl_Bast_def)

text \<open>
  The witness: the small configuration, with four Block Map entries, and
  the configuration of \<open>2^32\<close> blocks, whose Block Map is empty.
\<close>

theorem constructor_address_shift_witness:
  "0 < BLOCK_SIZE cfg2
   \<and> addressShift (FtlImpl_Bast cfg2) = 1
   \<and> power_of_two (BLOCK_SIZE cfg2)
   \<and> data_list (FtlImpl_Bast cfg2) = [- 1, - 1, - 1, - 1]
   \<and> 0 < BLOCK_SIZE cfg_wrap
   \<and> data_list (FtlImpl_Bast cfg_wrap) = []"
proof -
  have pos: "0 < BLOCK_SIZE cfg2" by (simp add: cfg2_def)
  have pos2: "0 < BLOCK_SIZE cfg_wrap" by (simp add: cfg_wrap_def cfg2_def)
  have s: "addressShift (FtlImpl_Bast cfg2) = 1"
    by (simp add: FtlImpl_Bast_def cfg2_def halving_loop_pos halving_loop_zero)
  have n: "numBlocks cfg_wrap = 0"
    by (simp add: numBlocks_def wrap_uint_def cfg_wrap_def cfg2_def)
  from constructor_address_shift [OF pos2] n
  have e: "data_list (FtlImpl_Bast cfg_wrap) = []" by simp
  from constructor_address_shift [OF pos]
  have "power_of_two (BLOCK_SIZE cfg2)" using s by (simp add: cfg2_def)
  then show ?thesis using pos pos2 s e data_list_cfg2 by simp
qed

text \<open>
  Claim C9 as stated fails: with blocks of three pages, not a power of
  two, construction yields an engine, and its shift of 1 splits addresses
  into blocks of two pages while page offsets are taken modulo three.
\<close>

theorem constructor_accepts_block_size_3:
  "\<not> power_of_two (BLOCK_SIZE cfg3)
   \<and> addressShift (FtlImpl_Bast cfg3) = 1
   \<and> 2 ^ addressShift (FtlImpl_Bast cfg3) \<noteq> BLOCK_SIZE cfg3
   \<and> block_of (FtlImpl_Bast cfg3) 2 = 1 \<and> page_of cfg3 2 = 2"
proof -
  have "(3::nat) \<noteq> 2 ^ k" for k :: nat
  proof (cases k)
    case 0
    then show ?thesis by simp
  next
    case (Suc j)
    have "even ((2::nat) ^ Suc j)" by simp
    moreover have "odd (3::nat)" by simp
    ultimately show ?thesis using Suc by metis
  qed
  then have np: "\<not> power_of_two (BLOCK_SIZE cfg3)"
    by (simp add: power_of_two_def cfg3_def cfg2_def)
  have s: "addressShift (FtlImpl_Bast cfg3) = 1"
    by (simp add: FtlImpl_Bast_def cfg3_def cfg2_def halving_loop_pos halving_loop_zero)
  show ?thesis using np s
    by (simp add: block_of_def page_of_def cfg3_def cfg2_def)
qed

subsection \<open>read\<close>

lemma lm_find_mem: "lm_find m k = Some p \<Longrightarrow> (k, p) \<in> set m"
  unfolding lm_find_def by (rule map_of_SomeD)

lemma wf_find:
  assumes "wf C st" and "lm_find (log_map st) b = Some p"
  shows "\<exists>lb. heap st p = Some lb \<and> length (pages lb) = BLOCK_SIZE C" and "p < next_ptr st"
proof -
  from assms(2) have "(b, p) \<in> set (log_map st)" by (rule lm_find_mem)
  with assms(1) have "p < next_ptr st \<and> lb_ok C st p"
    unfolding wf_def list_all_iff by auto
  then show "\<exists>lb. heap st p = Some lb \<and> length (pages lb) = BLOCK_SIZE C" and "p < next_ptr st"
    by (auto simp: lb_ok_def split: option.splits)
qed

lemma deref_opt_wf:
  assumes "wf C st"
  shows "deref_opt st (lm_find (log_map st) b) = Inr (log_block_of st b)"
proof (cases "lm_find (log_map st) b")
  case None
  then show ?thesis by (simp add: deref_opt_def log_block_of_def)
next
  case (Some p)
  from wf_find(1) [OF assms Some] obtain lb where "heap st p = Some lb" by blast
  then show ?thesis using Some by (simp add: deref_opt_def deref_def log_block_of_def)
qed

lemma data_at_in_range:
  "nat b < length (data_list st) \<Longrightarrow> 0 \<le> b \<Longrightarrow> data_at st b = Inr (data_list st ! nat b)"
  by (simp add: data_at_def)

lemma block_of_nonneg: "0 \<le> block_of st la"
  by (simp add: block_of_def)


lemma read_frame_aux:
  assumes "read E C st fl ev = Inr (r, ev', st', fl')"
  shows "st' = st\<lparr>stats := (stats st)\<lparr>numMemoryRead := numMemoryRead (stats st) + 1,
       numFTLRead := numFTLRead (stats st) + 1\<rparr>\<rparr>"
  using assms
  by (auto simp: read_def Let_def bump_MemoryRead_def split: sum.splits if_splits prod.splits)

lemma read_total:
  assumes w: "wf C st" and r: "nat (block_of st (ev_logical ev)) < length (data_list st)"
  shows "\<exists>r fl'. read E C st fl ev =
           Inr (r, ev\<lparr>ev_address := spec_read E C st fl (ev_logical ev)\<rparr>,
                st\<lparr>stats := (stats st)\<lparr>numMemoryRead := numMemoryRead (stats st) + 1,
                      numFTLRead := numFTLRead (stats st) + 1\<rparr>\<rparr>, fl')"
proof -
  have d: "data_at st (block_of st (ev_logical ev)) = Inr (data_list st ! nat (block_of st (ev_logical ev)))"
    using r by (simp add: data_at_in_range block_of_nonneg)
  show ?thesis
    unfolding read_def Let_def deref_opt_wf [OF w] d
    by (cases "log_block_of st (block_of st (ev_logical ev))")
       (auto simp: spec_read_def spec_lookup_def Let_def sentinel_def page_of_def bump_MemoryRead_def
             split: prod.splits)
qed
lemma wf_fresh: "0 < BLOCK_SIZE C \<Longrightarrow> wf C (FtlImpl_Bast C)"
  by (simp add: wf_def FtlImpl_Bast_def)

text \<open>
  Claim C10.  A read that completes leaves the Block Map, the Log Map, the
  log blocks (slot tables and counters) and the allocation pointer as they
  were: the state after it is the state before it with the two counters
  \<open>numMemoryRead\<close> and \<open>numFTLRead\<close> incremented, and the event differs from
  the incoming one in its physical address only.
\<close>

theorem read_frame:
  assumes "read E C st fl ev = Inr (r, ev', st', fl')"
  shows "data_list st' = data_list st \<and> log_map st' = log_map st \<and> heap st' = heap st
       \<and> next_ptr st' = next_ptr st \<and> addressShift st' = addressShift st
       \<and> st' = st\<lparr>stats := (stats st)\<lparr>numMemoryRead := numMemoryRead (stats st) + 1,
                      numFTLRead := numFTLRead (stats st) + 1\<rparr>\<rparr>
       \<and> ev' = ev\<lparr>ev_address := ev_address ev'\<rparr>"
proof -
  have e: "ev' = ev\<lparr>ev_address := ev_address ev'\<rparr>"
    using assms
    by (auto simp: read_def Let_def split: sum.splits if_splits prod.splits)
  from read_frame_aux [OF assms] e show ?thesis by simp
qed

text \<open>The witness: a read of logical address 1, which is in the log block of \<open>st_log2\<close>.\<close>

theorem read_frame_witness:
  "read (ref_env cfg2) cfg2 st_log2 (fresh_flash []) (host_event READ 1)
     = Inr (SUCCESS, (host_event READ 1)\<lparr>ev_address := 2\<rparr>,
            st_log2\<lparr>stats := (stats st_log2)\<lparr>numMemoryRead := 1, numFTLRead := 1\<rparr>\<rparr>,
            fresh_flash [])
   \<and> log_map (st_log2\<lparr>stats := (stats st_log2)\<lparr>numMemoryRead := 1, numFTLRead := 1\<rparr>\<rparr>)
       = log_map st_log2"
proof -
  have s: "addressShift (FtlImpl_Bast cfg2) = 1"
    by (simp add: FtlImpl_Bast_def cfg2_def halving_loop_pos halving_loop_zero)
  have h: "read (ref_env cfg2) cfg2 st_log2 (fresh_flash []) (host_event READ 1)
     = Inr (SUCCESS, (host_event READ 1)\<lparr>ev_address := 2\<rparr>,
            st_log2\<lparr>stats := (stats st_log2)\<lparr>numMemoryRead := 1, numFTLRead := 1\<rparr>\<rparr>,
            fresh_flash [])"
    using s
    by (simp add: read_def Let_def st_log2_def block_of_def page_of_def lm_find_def deref_opt_def
          deref_def bump_MemoryRead_def host_event_def ref_env_def ref_issue_def fresh_flash_def
          cfg2_def FtlImpl_Bast_def)
  from read_frame [OF h] h show ?thesis by simp
qed

subsection \<open>The Log Map as a sorted association list\<close>

lemma lm_erase_mem: "x \<in> set (lm_erase k m) \<Longrightarrow> x \<in> set m"
  by (induction m) (auto split: if_splits)

lemma lm_erase_subset: "set (lm_erase k m) \<subseteq> set m"
  using lm_erase_mem by blast

lemma lm_erase_sorted:
  "sorted_wrt (<) (map fst m) \<Longrightarrow> sorted_wrt (<) (map fst (lm_erase k m))"
proof (induction m)
  case Nil
  then show ?case by simp
next
  case (Cons a m)
  then show ?case by (cases a) (auto dest: lm_erase_mem)
qed

lemma lm_find_none_iff: "lm_find m k = None \<longleftrightarrow> k \<notin> fst ` set m"
  by (simp add: lm_find_def map_of_eq_None_iff)

lemma lm_erase_find_same:
  "sorted_wrt (<) (map fst m) \<Longrightarrow> lm_find (lm_erase k m) k = None"
proof (induction m)
  case Nil
  then show ?case by (simp add: lm_find_def)
next
  case (Cons a m)
  then show ?case
    by (cases a) (auto simp: lm_find_none_iff)
qed

lemma lm_erase_find_other:
  "k' \<noteq> k \<Longrightarrow> lm_find (lm_erase k m) k' = lm_find m k'"
  by (induction m) (auto simp: lm_find_def)

lemma lm_erase_length:
  "lm_find m k = Some p \<Longrightarrow> Suc (length (lm_erase k m)) = length m"
  by (induction m) (auto simp: lm_find_def split: if_splits)

lemma lm_erase_distinct_vals:
  "distinct (map snd m) \<Longrightarrow> distinct (map snd (lm_erase k m))"
proof (induction m)
  case Nil
  then show ?case by simp
next
  case (Cons a m)
  then show ?case using lm_erase_subset [of k m] by (cases a) force
qed

lemma lm_erase_hd: "lm_erase k ((k, p) # m) = m"
  by simp

lemma lm_erase_val_gone:
  assumes "distinct (map snd m)" and "lm_find m k = Some p"
  shows "p \<notin> snd ` set (lm_erase k m)"
  using assms
proof (induction m)
  case Nil
  then show ?case by (simp add: lm_find_def)
next
  case (Cons a m)
  show ?case
  proof (cases "k = fst a")
    case True
    then have "lm_erase k (a # m) = m" and "p = snd a"
      using Cons.prems(2) by (cases a; simp add: lm_find_def)+
    then show ?thesis using Cons.prems(1) by auto
  next
    case False
    then have e: "lm_erase k (a # m) = a # lm_erase k m" and f: "lm_find m k = Some p"
      using Cons.prems(2) by (cases a; simp add: lm_find_def)+
    have "(k, p) \<in> set m" using f by (simp add: lm_find_def map_of_SomeD)
    then have "p \<in> snd ` set m" by force
    then have "snd a \<noteq> p" using Cons.prems(1) by auto
    moreover have "p \<notin> snd ` set (lm_erase k m)"
      using Cons.IH Cons.prems(1) f by simp
    ultimately show ?thesis using e by auto
  qed
qed

lemma lm_assign_mem: "x \<in> set (lm_assign k v m) \<Longrightarrow> x = (k, v) \<or> x \<in> set m"
  by (induction m) (auto split: if_splits)

lemma lm_assign_sorted:
  "sorted_wrt (<) (map fst m) \<Longrightarrow> sorted_wrt (<) (map fst (lm_assign k v m))"
proof (induction m)
  case Nil
  then show ?case by simp
next
  case (Cons a m)
  then show ?case by (cases a) (auto dest: lm_assign_mem)
qed

lemma lm_assign_find:
  "sorted_wrt (<) (map fst m) \<Longrightarrow> lm_find (lm_assign k v m) k' = (if k' = k then Some v else lm_find m k')"
proof (induction m)
  case Nil
  then show ?case by (simp add: lm_find_def)
next
  case (Cons a m)
  then show ?case by (cases a) (auto simp: lm_find_def)
qed

lemma lm_assign_length:
  "lm_find m k = None \<Longrightarrow> length (lm_assign k v m) = Suc (length m)"
  by (induction m) (auto simp: lm_find_def split: if_splits)

lemma lm_assign_distinct_vals:
  "distinct (map snd m) \<Longrightarrow> v \<notin> snd ` set m \<Longrightarrow> distinct (map snd (lm_assign k v m))"
proof (induction m)
  case Nil
  then show ?case by simp
next
  case (Cons a m)
  then show ?case by (cases a) (force dest: lm_assign_mem)
qed

lemma seq_loop_iff:
  "seq_loop C lb i \<longleftrightarrow> (\<forall>j. i \<le> j \<and> j < BLOCK_SIZE C \<longrightarrow> pages lb ! j = int j)"
proof (induction C lb i rule: seq_loop.induct)
  case (1 C lb i)
  show ?case
  proof (cases "i < BLOCK_SIZE C")
    case False
    then show ?thesis by (subst seq_loop.simps) simp
  next
    case True
    show ?thesis
    proof (cases "pages lb ! i = int i")
      case False
      then show ?thesis using True by (subst seq_loop.simps) auto
    next
      case eq: True
      have "seq_loop C lb i = seq_loop C lb (i + 1)"
        using True eq by (subst seq_loop.simps) simp
      also have "\<dots> \<longleftrightarrow> (\<forall>j. i + 1 \<le> j \<and> j < BLOCK_SIZE C \<longrightarrow> pages lb ! j = int j)"
        using 1 True eq by simp
      also have "\<dots> \<longleftrightarrow> (\<forall>j. i \<le> j \<and> j < BLOCK_SIZE C \<longrightarrow> pages lb ! j = int j)"
        using eq by (metis Suc_eq_plus1 Suc_leI le_neq_implies_less le_simps(3) less_imp_le_nat)
      finally show ?thesis .
    qed
  qed
qed

subsection \<open>Sequential switch\<close>

lemma seq_loop_all: "seq_loop C lb 0 \<longleftrightarrow> (\<forall>i<BLOCK_SIZE C. pages lb ! i = int i)"
  by (simp add: seq_loop_iff)

text \<open>
  Claim C4.  For the live log block \<open>lb\<close> that the Log Map holds for \<open>lba\<close>,
  \<open>is_sequential\<close> returns true exactly when \<open>slot[i] = i\<close> for every page
  offset \<open>i\<close>.  In that case the Block Map entry of \<open>lba\<close> becomes the log
  block's physical block, the entry of \<open>lba\<close> leaves the Log Map (the other
  entries stay) and the log block is deleted, the switch counter goes up by
  one, and the collaborators see \<open>promote_block\<close>, the invalidation of the
  old data block if there was one, and one \<open>simulate_map_write\<close>: no read or
  write is issued.  Otherwise it returns false and changes nothing.
\<close>

theorem sequential_switch:
  assumes "wf C st" and "lm_find (log_map st) lba = Some p" and "heap st p = Some lb"
    and "0 \<le> lba" and "nat lba < length (data_list st)"
  shows "if (\<forall>i<BLOCK_SIZE C. pages lb ! i = int i)
         then (\<exists>st'. is_sequential E C st fl p lba ev =
                   Inr (True, st',
                        simulate_map_write E
                          (if data_list st ! nat lba \<noteq> - 1
                           then invalidate E (promote_block E fl DATA) (data_list st ! nat lba) DATA
                           else promote_block E fl DATA) ev)
                \<and> data_list st' = (data_list st)[nat lba := address lb]
                \<and> lm_find (log_map st') lba = None
                \<and> (\<forall>k. k \<noteq> lba \<longrightarrow> lm_find (log_map st') k = lm_find (log_map st) k)
                \<and> Suc (length (log_map st')) = length (log_map st)
                \<and> heap st' = (heap st)(p := None)
                \<and> numLogMergeSwitch (stats st') = numLogMergeSwitch (stats st) + 1)
         else is_sequential E C st fl p lba ev = Inr (False, st, fl)"
proof (cases "\<forall>i<BLOCK_SIZE C. pages lb ! i = int i")
  case False
  then have "\<not> seq_loop C lb 0" by (simp add: seq_loop_all)
  then show ?thesis using False assms(3) by (simp add: is_sequential_def deref_def)
next
  case True
  then have sq: "seq_loop C lb 0" by (simp add: seq_loop_all)
  have srt: "sorted_wrt (<) (map fst (log_map st))" using assms(1) by (simp add: wf_def)
  have d: "data_at st lba = Inr (data_list st ! nat lba)"
    using assms(4,5) by (simp add: data_at_def)
  let ?st' = "(dispose_logblock (st\<lparr>data_list := (data_list st)[nat lba := address lb]\<rparr>) p lba)
                \<lparr>stats := (stats st)\<lparr>numLogMergeSwitch := numLogMergeSwitch (stats st) + 1\<rparr>\<rparr>"
  have "is_sequential E C st fl p lba ev =
          Inr (True, ?st',
               simulate_map_write E
                 (if data_list st ! nat lba \<noteq> - 1
                  then invalidate E (promote_block E fl DATA) (data_list st ! nat lba) DATA
                  else promote_block E fl DATA) ev)"
    using sq assms(3) d by (simp add: is_sequential_def deref_def Let_def dispose_logblock_def)
  moreover have "lm_find (log_map ?st') lba = None"
    using srt by (simp add: dispose_logblock_def lm_erase_find_same)
  moreover have "\<forall>k. k \<noteq> lba \<longrightarrow> lm_find (log_map ?st') k = lm_find (log_map st) k"
    by (simp add: dispose_logblock_def lm_erase_find_other)
  moreover have "Suc (length (log_map ?st')) = length (log_map st)"
    using assms(2) by (simp add: dispose_logblock_def lm_erase_length)
  moreover have "data_list ?st' = (data_list st)[nat lba := address lb]"
    and "heap ?st' = (heap st)(p := None)"
    and "numLogMergeSwitch (stats ?st') = numLogMergeSwitch (stats st) + 1"
    by (simp_all add: dispose_logblock_def)
  ultimately show ?thesis using True by auto
qed

lemma cfg2_shift: "addressShift (FtlImpl_Bast cfg2) = 1"
  by (simp add: FtlImpl_Bast_def cfg2_def halving_loop_pos halving_loop_zero)

lemma wf_st_seq2: "wf cfg2 st_seq2"
  by (simp add: wf_def st_seq2_def cfg2_def lb_ok_def FtlImpl_Bast_def)

text \<open>The witness: the switch of the log block of \<open>st_seq2\<close>.\<close>

theorem sequential_switch_witness:
  "wf cfg2 st_seq2 \<and> lm_find (log_map st_seq2) 0 = Some 0
   \<and> BLOCK_SIZE cfg2 = 2 \<and> [0, 1 :: int] ! 0 = int 0 \<and> [0, 1 :: int] ! 1 = int 1
   \<and> (\<exists>st'. is_sequential (ref_env cfg2) cfg2 st_seq2 (fresh_flash []) 0 0 (host_event WRITE 0)
               = Inr (True, st', fresh_flash [])
            \<and> data_list st' = [2, - 1, - 1, - 1] \<and> lm_find (log_map st') 0 = None)"
proof -
  let ?lb = "\<lparr> pages = [0, 1], aPages = [- 1, - 1], numPages = 0, address = 2 \<rparr>"
  have f: "lm_find (log_map st_seq2) 0 = Some 0" by (simp add: st_seq2_def lm_find_def)
  have h: "heap st_seq2 0 = Some ?lb" by (simp add: st_seq2_def)
  have dl: "data_list st_seq2 = [- 1, - 1, - 1, - 1]"
    by (simp add: st_seq2_def data_list_cfg2)
  have r: "nat 0 < length (data_list st_seq2)"
    by (simp add: dl)
  have a: "\<forall>i<BLOCK_SIZE cfg2. pages ?lb ! i = int i"
    by (simp add: cfg2_def less_Suc_eq numeral_2_eq_2)
  from sequential_switch [OF wf_st_seq2 f h _ r, of "ref_env cfg2" "fresh_flash []" "host_event WRITE 0"] a
  have "\<exists>st'. is_sequential (ref_env cfg2) cfg2 st_seq2 (fresh_flash []) 0 0 (host_event WRITE 0)
               = Inr (True, st', fresh_flash [])
            \<and> data_list st' = [2, - 1, - 1, - 1] \<and> lm_find (log_map st') 0 = None"
    by (auto simp: dl ref_env_def)
  then show ?thesis using wf_st_seq2 f by (simp add: cfg2_def)
qed

subsection \<open>Disposal and merges keep states well formed\<close>

lemma wf_stats [simp]: "wf C (st\<lparr>stats := s\<rparr>) = wf C st"
  by (simp add: wf_def lb_ok_def)

lemma wf_data_list [simp]: "wf C (st\<lparr>data_list := d\<rparr>) = wf C st"
  by (simp add: wf_def lb_ok_def)

lemma wf_bump [simp]: "wf C (bump_MemoryRead st) = wf C st"
  by (simp add: bump_MemoryRead_def)

lemma bump_fields [simp]:
  "log_map (bump_MemoryRead st) = log_map st"
  "heap (bump_MemoryRead st) = heap st"
  "next_ptr (bump_MemoryRead st) = next_ptr st"
  "data_list (bump_MemoryRead st) = data_list st"
  "addressShift (bump_MemoryRead st) = addressShift st"
  by (simp_all add: bump_MemoryRead_def)

lemma wf_dispose:
  assumes w: "wf C st" and f: "lm_find (log_map st) lba = Some p"
  shows "wf C (dispose_logblock st p lba)"
proof -
  have srt: "sorted_wrt (<) (map fst (log_map st))" and dv: "distinct (map snd (log_map st))"
    and all: "\<forall>(k, q) \<in> set (log_map st). q < next_ptr st \<and> lb_ok C st q"
    and pos: "0 < BLOCK_SIZE C"
    using w by (auto simp: wf_def list_all_iff)
  have gone: "p \<notin> snd ` set (lm_erase lba (log_map st))"
    using lm_erase_val_gone [OF dv f] .
  have "\<forall>(k, q) \<in> set (lm_erase lba (log_map st)).
          q < next_ptr st \<and> lb_ok C (dispose_logblock st p lba) q"
  proof (clarify, intro conjI)
    fix k q assume m: "(k, q) \<in> set (lm_erase lba (log_map st))"
    then have m': "(k, q) \<in> set (log_map st)" by (rule lm_erase_mem)
    with all show "q < next_ptr st" by auto
    from m gone have "q \<noteq> p" by force
    with all m' show "lb_ok C (dispose_logblock st p lba) q"
      by (auto simp: lb_ok_def dispose_logblock_def)
  qed
  then show ?thesis
    using pos lm_erase_sorted [OF srt] lm_erase_distinct_vals [OF dv]
    by (simp add: wf_def dispose_logblock_def list_all_iff)
qed

lemma dispose_fields [simp]:
  "log_map (dispose_logblock st p lba) = lm_erase lba (log_map st)"
  "heap (dispose_logblock st p lba) = (heap st)(p := None)"
  "next_ptr (dispose_logblock st p lba) = next_ptr st"
  "data_list (dispose_logblock st p lba) = data_list st"
  "addressShift (dispose_logblock st p lba) = addressShift st"
  "stats (dispose_logblock st p lba) = stats st"
  by (simp_all add: dispose_logblock_def)

text \<open>What a merge decision that completes does to the Log Map and the store.\<close>

lemma is_sequential_effect:
  assumes "is_sequential E C st fl p lba ev = Inr (b, st', fl')"
  shows "if b then log_map st' = lm_erase lba (log_map st) \<and> heap st' = (heap st)(p := None)
                 \<and> next_ptr st' = next_ptr st \<and> addressShift st' = addressShift st
                 \<and> length (data_list st') = length (data_list st)
         else st' = st \<and> fl' = fl"
  using assms
  by (auto simp: is_sequential_def Let_def split: sum.splits if_splits)

lemma random_merge_effect:
  assumes "random_merge E C st fl p lba ev = Inr (b, st', fl', tr)"
  shows "log_map st' = lm_erase lba (log_map st) \<and> heap st' = (heap st)(p := None)
       \<and> next_ptr st' = next_ptr st \<and> addressShift st' = addressShift st
       \<and> length (data_list st') = length (data_list st)"
  using assms
  by (auto simp: random_merge_def Let_def split: sum.splits option.splits prod.splits if_splits)

lemma merge_decision_effect:
  assumes "merge_decision E C st fl p lba ev = Inr (st', fl')"
  shows "log_map st' = lm_erase lba (log_map st) \<and> heap st' = (heap st)(p := None)
       \<and> next_ptr st' = next_ptr st \<and> addressShift st' = addressShift st
       \<and> length (data_list st') = length (data_list st)"
proof -
  from assms obtain b st1 fl1 where s: "is_sequential E C st fl p lba ev = Inr (b, st1, fl1)"
    by (auto simp: merge_decision_def split: sum.splits)
  show ?thesis
  proof (cases b)
    case True
    then have "st' = st1" using assms s by (simp add: merge_decision_def)
    then show ?thesis using is_sequential_effect [OF s] True by simp
  next
    case False
    then have e: "st1 = st" "fl1 = fl" using is_sequential_effect [OF s] by simp_all
    from assms s False e obtain b2 tr where
      "random_merge E C st fl p lba ev = Inr (b2, st', fl', tr)"
      by (auto simp: merge_decision_def split: sum.splits)
    then show ?thesis by (rule random_merge_effect)
  qed
qed

lemma wf_cong:
  assumes "wf C st" and "log_map st' = log_map st" and "heap st' = heap st"
    and "next_ptr st' = next_ptr st"
  shows "wf C st'"
  using assms by (simp add: wf_def lb_ok_def)

lemma wf_merge_decision:
  assumes w: "wf C st" and f: "lm_find (log_map st) lba = Some p"
    and m: "merge_decision E C st fl p lba ev = Inr (st', fl')"
  shows "wf C st'"
proof -
  from merge_decision_effect [OF m]
  have "log_map st' = log_map (dispose_logblock st p lba)"
    "heap st' = heap (dispose_logblock st p lba)"
    "next_ptr st' = next_ptr (dispose_logblock st p lba)" by simp_all
  with wf_dispose [OF w f] show ?thesis by (rule wf_cong)
qed

subsection \<open>Allocation of a log block\<close>

lemma lm_assign_length_le: "length (lm_assign k v m) \<le> Suc (length m)"
  by (induction m) auto

lemma lm_find_hd: "lm_find ((k, p) # m) k = Some p"
  by (simp add: lm_find_def)



lemma allocate_effect:
  assumes a: "allocate_new_logblock E C st fl po lba ev = Inr (st', fl')"
  shows "log_map st' = lm_assign lba (next_ptr st) (after_eviction C (log_map st))"
    and "next_ptr st' = Suc (next_ptr st)"
    and "\<exists>a. heap st' (next_ptr st) = Some ((new_LogPageBlock C)\<lparr>address := a\<rparr>)"
    and "addressShift st' = addressShift st"
    and "length (data_list st') = length (data_list st)"
    and "length (log_map st) \<ge> BAST_LOG_PAGE_LIMIT C \<Longrightarrow> log_map st \<noteq> []"
    and "\<And>q. q \<noteq> next_ptr st \<Longrightarrow>
           heap st' q = (if length (log_map st) \<ge> BAST_LOG_PAGE_LIMIT C \<and> q = snd (hd (log_map st))
                         then None else heap st q)"
proof -
  show ne: "log_map st \<noteq> []" if "length (log_map st) \<ge> BAST_LOG_PAGE_LIMIT C"
    using a that by (auto simp: allocate_new_logblock_def split: list.splits)
  obtain st1 fl1 where
    ev: "(if length (log_map st) \<ge> BAST_LOG_PAGE_LIMIT C
          then (case log_map st of [] \<Rightarrow> Inl EmptyLogMap
                | (k, p) # _ \<Rightarrow> merge_decision E C st fl p k ev)
          else Inr (st, fl)) = Inr (st1, fl1)"
    using a by (auto simp: allocate_new_logblock_def split: sum.splits)
  have e1: "log_map st1 = after_eviction C (log_map st) \<and> next_ptr st1 = next_ptr st
          \<and> addressShift st1 = addressShift st \<and> length (data_list st1) = length (data_list st)
          \<and> heap st1 = (if length (log_map st) \<ge> BAST_LOG_PAGE_LIMIT C
                         then (heap st)(snd (hd (log_map st)) := None) else heap st)"
  proof (cases "length (log_map st) \<ge> BAST_LOG_PAGE_LIMIT C")
    case False
    then show ?thesis using ev by (simp add: after_eviction_def)
  next
    case True
    then obtain k p rest where l: "log_map st = (k, p) # rest"
      using ne by (cases "log_map st") auto
    then have "merge_decision E C st fl p k ev = Inr (st1, fl1)" using ev True by simp
    from merge_decision_effect [OF this] show ?thesis using True l
      by (simp add: after_eviction_def)
  qed
  from a ev obtain ad fl2 where
    g: "get_free_block E fl1 LOG = Some (ad, fl2)"
    and s: "st' = st1\<lparr>heap := (heap st1)(next_ptr st1 \<mapsto> (new_LogPageBlock C)\<lparr>address := ad\<rparr>),
                      next_ptr := next_ptr st1 + 1,
                      log_map := lm_assign lba (next_ptr st1) (log_map st1)\<rparr>"
    by (auto simp: allocate_new_logblock_def Let_def split: sum.splits option.splits)
  show "log_map st' = lm_assign lba (next_ptr st) (after_eviction C (log_map st))"
    and "next_ptr st' = Suc (next_ptr st)"
    and "addressShift st' = addressShift st"
    and "length (data_list st') = length (data_list st)"
    using s e1 by simp_all
  have "heap st' (next_ptr st) = Some ((new_LogPageBlock C)\<lparr>address := ad\<rparr>)"
    using s e1 by simp
  then show "\<exists>a. heap st' (next_ptr st) = Some ((new_LogPageBlock C)\<lparr>address := a\<rparr>)"
    by (rule exI)
  show "heap st' q = (if length (log_map st) \<ge> BAST_LOG_PAGE_LIMIT C \<and> q = snd (hd (log_map st))
                         then None else heap st q)" if "q \<noteq> next_ptr st" for q
    using s e1 that by simp
qed

lemma wf_allocate:
  assumes w: "wf C st" and a: "allocate_new_logblock E C st fl po lba ev = Inr (st', fl')"
  shows "wf C st'"
proof -
  obtain st1 fl1 where
    ev: "(if length (log_map st) \<ge> BAST_LOG_PAGE_LIMIT C
          then (case log_map st of [] \<Rightarrow> Inl EmptyLogMap
                | (k, p) # _ \<Rightarrow> merge_decision E C st fl p k ev)
          else Inr (st, fl)) = Inr (st1, fl1)"
    using a by (auto simp: allocate_new_logblock_def split: sum.splits)
  have w1: "wf C st1 \<and> next_ptr st1 = next_ptr st"
  proof (cases "length (log_map st) \<ge> BAST_LOG_PAGE_LIMIT C")
    case False
    then show ?thesis using ev w by simp
  next
    case True
    then obtain k p rest where l: "log_map st = (k, p) # rest"
      using ev by (cases "log_map st") auto
    then have m: "merge_decision E C st fl p k ev = Inr (st1, fl1)" using ev True by simp
    have "lm_find (log_map st) k = Some p" using l by (simp add: lm_find_hd)
    from wf_merge_decision [OF w this m] merge_decision_effect [OF m] show ?thesis by simp
  qed
  from a ev obtain ad fl2 where
    s: "st' = st1\<lparr>heap := (heap st1)(next_ptr st1 \<mapsto> (new_LogPageBlock C)\<lparr>address := ad\<rparr>),
                      next_ptr := next_ptr st1 + 1,
                      log_map := lm_assign lba (next_ptr st1) (log_map st1)\<rparr>"
    by (auto simp: allocate_new_logblock_def Let_def split: sum.splits option.splits)
  have srt: "sorted_wrt (<) (map fst (log_map st1))" and dv: "distinct (map snd (log_map st1))"
    and all: "\<forall>(k, q) \<in> set (log_map st1). q < next_ptr st1 \<and> lb_ok C st1 q"
    and pos: "0 < BLOCK_SIZE C"
    using w1 by (auto simp: wf_def list_all_iff)
  have fresh: "next_ptr st1 \<notin> snd ` set (log_map st1)" using all by force
  have "\<forall>(k, q) \<in> set (lm_assign lba (next_ptr st1) (log_map st1)).
          q < next_ptr st' \<and> lb_ok C st' q"
  proof (clarify)
    fix k q assume "(k, q) \<in> set (lm_assign lba (next_ptr st1) (log_map st1))"
    then consider "q = next_ptr st1" | "(k, q) \<in> set (log_map st1)" "q \<noteq> next_ptr st1"
      using lm_assign_mem [of "(k, q)" lba "next_ptr st1" "log_map st1"] by auto
    then show "q < next_ptr st' \<and> lb_ok C st' q"
    proof cases
      case 1
      then show ?thesis using s by (simp add: lb_ok_def new_LogPageBlock_def)
    next
      case 2
      then show ?thesis using s all by (auto simp: lb_ok_def)
    qed
  qed
  then show ?thesis
    using pos lm_assign_sorted [OF srt] lm_assign_distinct_vals [OF dv fresh] s
    by (simp add: wf_def list_all_iff)
qed

lemma allocate_capacity:
  assumes a: "allocate_new_logblock E C st fl po lba ev = Inr (st', fl')"
    and le: "length (log_map st) \<le> BAST_LOG_PAGE_LIMIT C"
  shows "length (log_map st') \<le> BAST_LOG_PAGE_LIMIT C"
proof (cases "length (log_map st) \<ge> BAST_LOG_PAGE_LIMIT C")
  case True
  with allocate_effect(6) [OF a] have "log_map st \<noteq> []" by simp
  then have "Suc (length (tl (log_map st))) = length (log_map st)" by (cases "log_map st") auto
  then show ?thesis
    using allocate_effect(1) [OF a] True le lm_assign_length_le [of lba "next_ptr st" "tl (log_map st)"]
    by (simp add: after_eviction_def)
next
  case False
  then show ?thesis
    using allocate_effect(1) [OF a] lm_assign_length_le [of lba "next_ptr st" "log_map st"]
    by (simp add: after_eviction_def)
qed

subsection \<open>What a completed write has done\<close>

lemma after_eviction_sorted:
  "sorted_wrt (<) (map fst m) \<Longrightarrow> sorted_wrt (<) (map fst (after_eviction C m))"
  by (cases m) (auto simp: after_eviction_def)

text \<open>
  The branch of \<open>write\<close> for a full log block: the pointer the caller holds
  is the one the merge deleted, and the allocation cannot revive it.
\<close>

lemma stale_pointer:
  assumes w: "wf C st1" and f: "lm_find (log_map st1) lba = Some p"
    and m: "merge_decision E C st1 fl0 p lba ev = Inr (st2, fl2)"
    and a: "allocate_new_logblock E C st2 fl2 po lba ev = Inr (st3, fl3)"
  shows "deref st3 p = Inl UseAfterFree"
    and "\<exists>q lb. lm_find (log_map st3) lba = Some q \<and> q \<noteq> p \<and> heap st3 q = Some lb
               \<and> pages lb = replicate (BLOCK_SIZE C) (- 1)"
proof -
  have lt: "p < next_ptr st1" using wf_find(2) [OF w f] .
  from merge_decision_effect [OF m]
  have h2: "heap st2 p = None" and n2: "next_ptr st2 = next_ptr st1" by simp_all
  have ne: "p \<noteq> next_ptr st2" using lt n2 by simp
  from allocate_effect(7) [OF a ne] h2 have "heap st3 p = None" by simp
  then show "deref st3 p = Inl UseAfterFree" by (simp add: deref_def)
  have w2: "wf C st2" using wf_merge_decision [OF w f m] .
  then have "sorted_wrt (<) (map fst (after_eviction C (log_map st2)))"
    by (simp add: wf_def after_eviction_sorted)
  then have "lm_find (log_map st3) lba = Some (next_ptr st2)"
    using allocate_effect(1) [OF a] by (simp add: lm_assign_find)
  moreover from allocate_effect(3) [OF a] obtain ad where
    "heap st3 (next_ptr st2) = Some ((new_LogPageBlock C)\<lparr>address := ad\<rparr>)" by blast
  ultimately show "\<exists>q lb. lm_find (log_map st3) lba = Some q \<and> q \<noteq> p \<and> heap st3 q = Some lb
               \<and> pages lb = replicate (BLOCK_SIZE C) (- 1)"
    using ne by (auto simp: new_LogPageBlock_def)
qed

text \<open>The state in which \<open>write\<close> looks up \<open>log_map[lba]\<close>, after the allocation of line 155.\<close>

lemma write_prepare:
  assumes w: "wf C st"
    and p: "(if lm_find (log_map st) lba = None
             then allocate_new_logblock E C st fl None lba ev
             else Inr (st, fl)) = Inr (st0, fl0)"
  shows "wf C st0" and "\<exists>p. lm_find (log_map st0) lba = Some p"
    and "length (log_map st) \<le> BAST_LOG_PAGE_LIMIT C \<Longrightarrow> length (log_map st0) \<le> BAST_LOG_PAGE_LIMIT C"
    and "addressShift st0 = addressShift st" and "length (data_list st0) = length (data_list st)"
proof -
  show "wf C st0" using w p wf_allocate by (auto split: if_splits)
  show "\<exists>p. lm_find (log_map st0) lba = Some p"
  proof (cases "lm_find (log_map st) lba = None")
    case False
    then show ?thesis using p by auto
  next
    case True
    then have a: "allocate_new_logblock E C st fl None lba ev = Inr (st0, fl0)" using p by simp
    have "sorted_wrt (<) (map fst (after_eviction C (log_map st)))"
      using w by (simp add: wf_def after_eviction_sorted)
    then show ?thesis using allocate_effect(1) [OF a] by (simp add: lm_assign_find)
  qed
  show "length (log_map st0) \<le> BAST_LOG_PAGE_LIMIT C" if "length (log_map st) \<le> BAST_LOG_PAGE_LIMIT C"
    using p that allocate_capacity by (auto split: if_splits)
  show "addressShift st0 = addressShift st" and "length (data_list st0) = length (data_list st)"
    using p allocate_effect(4,5) by (auto split: if_splits)
qed

text \<open>What a write that completes has done: always the append branch.\<close>

lemma write_effect:
  assumes w: "wf C st"
    and wr: "write_ftl E C st fl ev = Inr (r, ev', st', fl')"
  shows "\<exists>st0 fl0 p lb.
           (if lm_find (log_map st) (block_of st (ev_logical ev)) = None
            then allocate_new_logblock E C st fl None (block_of st (ev_logical ev)) ev
            else Inr (st, fl)) = Inr (st0, fl0)
         \<and> lm_find (log_map st0) (block_of st (ev_logical ev)) = Some p
         \<and> heap st0 p = Some lb
         \<and> get_num_valid E fl0 (address lb) < BLOCK_SIZE C
         \<and> log_map st' = log_map st0
         \<and> next_ptr st' = next_ptr st0
         \<and> data_list st' = data_list st0
         \<and> addressShift st' = addressShift st0
         \<and> heap st' = (heap st0)
               (p \<mapsto> lb\<lparr>pages := (pages lb)[page_of C (ev_logical ev) :=
                                        int (get_num_valid E fl0 (address lb))]\<rparr>)
         \<and> ev' = ev\<lparr>ev_address := get_free_page E fl0 (address lb)\<rparr>
         \<and> fl' = snd (issue E (insert_events E fl0 ev') ev')"
proof -
  let ?lba = "block_of st (ev_logical ev)"
  from wr obtain st0 fl0 where
    p: "(if lm_find (log_map st) ?lba = None
         then allocate_new_logblock E C st fl None ?lba ev
         else Inr (st, fl)) = Inr (st0, fl0)"
    by (auto simp: write_ftl_def Let_def split: sum.splits)
  from write_prepare(1,2) [OF w p] obtain q where w0: "wf C st0"
    and f: "lm_find (log_map st0) ?lba = Some q" by blast
  from wf_find(1) [OF w0 f] obtain lb where h: "heap st0 q = Some lb" by blast
  let ?st1 = "bump_MemoryRead st0"
  have w1: "wf C ?st1" and f1: "lm_find (log_map ?st1) ?lba = Some q"
    and d1: "deref ?st1 q = Inr lb"
    using w0 f h by (simp_all add: deref_def)
  show ?thesis
  proof (cases "get_num_valid E fl0 (address lb) < BLOCK_SIZE C")
    case True
    have "fl' = snd (issue E (insert_events E fl0 ev') ev')
        \<and> ev' = ev\<lparr>ev_address := get_free_page E fl0 (address lb)\<rparr>
        \<and> st' = (?st1\<lparr>heap := (heap ?st1)
               (q \<mapsto> lb\<lparr>pages := (pages lb)[page_of C (ev_logical ev) :=
                                        int (get_num_valid E fl0 (address lb))]\<rparr>)\<rparr>)
               \<lparr>stats := (stats ?st1)\<lparr>numFTLWrite := numFTLWrite (stats ?st1) + 1\<rparr>\<rparr>"
      using wr p f1 d1 True
      by (auto simp: write_ftl_def Let_def split: prod.splits)
    then show ?thesis using p f h True by (intro exI [of _ st0] exI [of _ fl0] exI [of _ q] exI [of _ lb]) simp
  next
    case False
    from wr p f1 d1 False obtain st2 fl2 st3 fl3 lb' where
      m: "merge_decision E C ?st1 fl0 q ?lba ev = Inr (st2, fl2)"
      and a: "allocate_new_logblock E C st2 fl2 (Some q) ?lba ev = Inr (st3, fl3)"
      and d: "deref st3 q = Inr lb'"
      by (auto simp: write_ftl_def Let_def split: sum.splits prod.splits)
    from stale_pointer(1) [OF w1 f1 m a] d show ?thesis by simp
  qed
qed

lemma write_full_fails:
  assumes w: "wf C st"
    and f: "lm_find (log_map st) (block_of st (ev_logical ev)) = Some p" and h: "heap st p = Some lb"
    and full: "\<not> get_num_valid E fl (address lb) < BLOCK_SIZE C"
  shows "\<exists>e. write_ftl E C st fl ev = Inl e"
proof (cases "write_ftl E C st fl ev")
  case (Inl e)
  then show ?thesis by blast
next
  case (Inr x)
  then obtain r ev' st' fl' where "write_ftl E C st fl ev = Inr (r, ev', st', fl')"
    by (cases x) auto
  from write_effect [OF w this] f h full show ?thesis by auto
qed

subsection \<open>Write then read, and the write to a full log block\<close>

lemma wf_heap_update:
  assumes "wf C st" and "length (pages lb') = BLOCK_SIZE C"
    and "log_map st' = log_map st" and "next_ptr st' = next_ptr st"
    and "heap st' = (heap st)(p \<mapsto> lb')"
  shows "wf C st'"
  using assms by (auto simp: wf_def lb_ok_def list_all_iff)

lemma read_log_hit:
  assumes w: "wf C st" and l: "log_block_of st (block_of st (ev_logical ev)) = Some lb"
    and s: "pages lb ! page_of C (ev_logical ev) \<noteq> - 1"
  shows "resolved_address (read E C st fl ev) =
           Inr (if get_state E fl (address lb + pages lb ! page_of C (ev_logical ev)) = INVALID
                then sentinel else address lb + pages lb ! page_of C (ev_logical ev))"
  unfolding read_def Let_def deref_opt_wf [OF w] l
  using s by (simp add: resolved_address_def sentinel_def split: prod.splits)

text \<open>
  Claim C2.  Take a write that completes, in a well-formed state, on a
  flash array where the next free page of a block is its base plus its
  valid-page count and where a page is not tracked as invalid right after a
  write was issued to it.  Then the log block the Log Map holds for the
  block index afterwards has, in the slot of the page offset, an offset
  below the block size (the valid-page count of the log block, read before
  the write was issued), the write was issued to the log block's base plus
  that slot, and a read of the same logical address right after resolves
  to that same physical address.  A write that completes never went
  through a merge of its own log block: it writes to a full log block only
  after allocating a new one, and that path does not complete.
\<close>

theorem write_then_read:
  assumes w: "wf C st"
    and wr: "write_ftl E C st fl ev = Inr (r, ev', st', fl')"
    and ty: "ev_type ev = WRITE" "\<not> ev_noop ev"
    and next_free: "\<forall>f a. get_free_page E f a = a + int (get_num_valid E f a)"
    and written: "\<forall>f e. ev_type e = WRITE \<and> \<not> ev_noop e
                    \<longrightarrow> get_state E (snd (issue E f e)) (ev_address e) \<noteq> INVALID"
    and same: "ev_logical evr = ev_logical ev"
  shows "\<exists>lb. log_block_of st' (block_of st' (ev_logical ev)) = Some lb
            \<and> 0 \<le> pages lb ! page_of C (ev_logical ev)
            \<and> pages lb ! page_of C (ev_logical ev) < int (BLOCK_SIZE C)
            \<and> (lm_find (log_map st) (block_of st (ev_logical ev)) \<noteq> None
                 \<longrightarrow> pages lb ! page_of C (ev_logical ev) = int (get_num_valid E fl (address lb)))
            \<and> ev_address ev' = address lb + pages lb ! page_of C (ev_logical ev)
            \<and> resolved_address (read E C st' fl' evr) = Inr (ev_address ev')"
proof -
  let ?lba = "block_of st (ev_logical ev)"
  let ?page = "page_of C (ev_logical ev)"
  from write_effect [OF w wr] obtain st0 fl0 p lb where
    p: "(if lm_find (log_map st) ?lba = None
         then allocate_new_logblock E C st fl None ?lba ev
         else Inr (st, fl)) = Inr (st0, fl0)"
    and f: "lm_find (log_map st0) ?lba = Some p" and h: "heap st0 p = Some lb"
    and nv: "get_num_valid E fl0 (address lb) < BLOCK_SIZE C"
    and lm: "log_map st' = log_map st0" and np: "next_ptr st' = next_ptr st0"
    and sh: "addressShift st' = addressShift st0"
    and hp: "heap st' = (heap st0)(p \<mapsto> lb\<lparr>pages := (pages lb)[?page :=
                                        int (get_num_valid E fl0 (address lb))]\<rparr>)"
    and e: "ev' = ev\<lparr>ev_address := get_free_page E fl0 (address lb)\<rparr>"
    and fl: "fl' = snd (issue E (insert_events E fl0 ev') ev')"
    by (elim exE conjE) (rule that, assumption+)
  let ?lb' = "lb\<lparr>pages := (pages lb)[?page := int (get_num_valid E fl0 (address lb))]\<rparr>"
  have w0: "wf C st0" and sh0: "addressShift st0 = addressShift st"
    using write_prepare(1,4) [OF w p] by simp_all
  from wf_find(1) [OF w0 f] h have len: "length (pages lb) = BLOCK_SIZE C" by auto
  have pos: "0 < BLOCK_SIZE C" using w by (simp add: wf_def)
  then have pg: "?page < length (pages lb)" using len by (simp add: page_of_def)
  have slot: "pages ?lb' ! ?page = int (get_num_valid E fl0 (address lb))"
    using pg by simp
  have w': "wf C st'" by (rule wf_heap_update [OF w0 _ lm np hp]) (simp add: len)
  have b: "block_of st' (ev_logical ev) = ?lba" using sh sh0 by (simp add: block_of_def)
  have l: "log_block_of st' (block_of st' (ev_logical ev)) = Some ?lb'"
    using f lm hp b by (simp add: log_block_of_def)
  have a: "ev_address ev' = address ?lb' + pages ?lb' ! ?page"
    using e next_free slot by simp
  have "ev_type ev' = WRITE \<and> \<not> ev_noop ev'" using e ty by simp
  then have ni: "get_state E fl' (ev_address ev') \<noteq> INVALID"
    using written fl by blast
  have l2: "log_block_of st' (block_of st' (ev_logical evr)) = Some ?lb'"
    and s2: "pages ?lb' ! page_of C (ev_logical evr) \<noteq> - 1"
    using l slot same by simp_all
  have rd: "resolved_address (read E C st' fl' evr) = Inr (ev_address ev')"
    using read_log_hit [OF w' l2 s2, of E fl'] ni a same by simp
  have old: "pages ?lb' ! ?page = int (get_num_valid E fl (address ?lb'))"
    if "lm_find (log_map st) ?lba \<noteq> None"
    using p that slot by simp
  show ?thesis
    using l slot nv a rd old pg by (intro exI [of _ ?lb']) simp
qed




lemma ref_env_next_free:
  "\<forall>f a. get_free_page (ref_env C) f a = a + int (get_num_valid (ref_env C) f a)"
  by (simp add: ref_env_def)

lemma ref_env_written:
  "\<forall>f e. ev_type e = WRITE \<and> \<not> ev_noop e
     \<longrightarrow> get_state (ref_env C) (snd (issue (ref_env C) f e)) (ev_address e) \<noteq> INVALID"
  by (simp add: ref_env_def ref_issue_def)

text \<open>
  The witness: on the fresh engine, a write of logical address 1 goes to
  physical address 2, and the read that follows resolves to 2.
\<close>

theorem write_then_read_witness:
  "resolved_address (write_ftl (ref_env cfg2) cfg2 (FtlImpl_Bast cfg2) (fresh_flash [2, 4])
      (host_event WRITE 1)) = Inr 2
   \<and> read_after (ref_env cfg2) cfg2 (FtlImpl_Bast cfg2) (fresh_flash [2, 4]) [Write 1] 1 = Inr 2"
proof -
  let ?E = "ref_env cfg2" and ?S = "FtlImpl_Bast cfg2" and ?F = "fresh_flash [2, 4]"
  have a: "resolved_address (write_ftl ?E cfg2 ?S ?F (host_event WRITE 1)) = Inr 2"
    by code_simp
  then obtain r ev' st' fl' where
    wr: "write_ftl ?E cfg2 ?S ?F (host_event WRITE 1) = Inr (r, ev', st', fl')"
    and ea: "ev_address ev' = 2"
    by (auto simp: resolved_address_def split: sum.splits)
  have w: "wf cfg2 ?S" by (rule wf_fresh) (simp add: cfg2_def)
  have ty: "ev_type (host_event WRITE 1) = WRITE" "\<not> ev_noop (host_event WRITE 1)"
    by (simp_all add: host_event_def)
  have same: "ev_logical (host_event READ 1) = ev_logical (host_event WRITE 1)"
    by (simp add: host_event_def)
  from write_then_read [OF w wr ty ref_env_next_free ref_env_written same]
  have "resolved_address (read ?E cfg2 st' fl' (host_event READ 1)) = Inr (ev_address ev')"
    by blast
  moreover have "read_after ?E cfg2 ?S ?F [Write 1] 1
                   = resolved_address (read ?E cfg2 st' fl' (host_event READ 1))"
    using wr by (simp add: read_after_def exec_def)
  ultimately show ?thesis using a ea by simp
qed

text \<open>
  Claim C7 on the code.  On the fresh engine, writes to the logical
  addresses 0 and 1 fill the log block of logical block 0 in order.  The
  next write to logical address 0 finds it full, switches it into the
  Block Map and allocates a new log block, and then stores the slot and
  reads the address through the pointer of the log block the switch
  deleted.
\<close>

theorem write_to_full_log_block:
  "slots_after (ref_env cfg2) cfg2 (FtlImpl_Bast cfg2) (fresh_flash [2, 4, 6, 8]) [Write 0, Write 1]
     = Inr [(0, Some [0, 1])]
   \<and> run_error (ref_env cfg2) cfg2 (FtlImpl_Bast cfg2) (fresh_flash [2, 4, 6, 8])
       [Write 0, Write 1] = None
   \<and> run_error (ref_env cfg2) cfg2 (FtlImpl_Bast cfg2) (fresh_flash [2, 4, 6, 8])
       [Write 0, Write 1, Write 0] = Some UseAfterFree"
  by code_simp

subsection \<open>trim against the steps of the specification\<close>

lemma spec_trim_log_fields:
  assumes "spec_trim_log E C st fl la = (st2, fl2)"
  shows "data_list st2 = data_list st" and "addressShift st2 = addressShift st"
    and "next_ptr st2 = next_ptr st" and "stats st2 = stats st"
    and "length (log_map st2) \<le> length (log_map st)"
  using assms lm_erase_length [of "log_map st" "block_of st la"]
  by (auto simp: spec_trim_log_def Let_def split: option.splits if_splits)

lemma spec_trim_data_fields:
  assumes "spec_trim_data E C st fl la = (st3, fl3)"
  shows "log_map st3 = log_map st" and "heap st3 = heap st" and "addressShift st3 = addressShift st"
    and "next_ptr st3 = next_ptr st" and "stats st3 = stats st"
    and "length (data_list st3) = length (data_list st)"
  using assms
  by (auto simp: spec_trim_data_def Let_def split: if_splits)

lemma wf_spec_trim_log:
  assumes w: "wf C st" and s: "spec_trim_log E C st fl la = (st2, fl2)"
  shows "wf C st2"
proof (cases "lm_find (log_map st) (block_of st la)")
  case None
  then show ?thesis using s w by (simp add: spec_trim_log_def Let_def)
next
  case (Some p)
  from wf_find(1) [OF w Some] obtain lb where h: "heap st p = Some lb"
    and len: "length (pages lb) = BLOCK_SIZE C" by blast
  let ?off = "la mod BLOCK_SIZE C"
  let ?a = "address lb + pages lb ! ?off"
  consider (none) "pages lb ! ?off = - 1"
    | (drop) "pages lb ! ?off \<noteq> - 1" "blk_state E (invalidate_page E fl ?a) ?a = INACTIVE"
    | (clear) "pages lb ! ?off \<noteq> - 1" "blk_state E (invalidate_page E fl ?a) ?a \<noteq> INACTIVE"
    by blast
  then show ?thesis
  proof cases
    case none
    then show ?thesis using s w Some h by (simp add: spec_trim_log_def Let_def)
  next
    case drop
    then have "st2 = dispose_logblock st p (block_of st la)"
      using s Some h by (simp add: spec_trim_log_def Let_def dispose_logblock_def)
    then show ?thesis using wf_dispose [OF w Some] by simp
  next
    case clear
    then have e: "st2 = st\<lparr>heap := (heap st)(p \<mapsto> lb\<lparr>pages := (pages lb)[?off := - 1]\<rparr>)\<rparr>"
      using s Some h by (simp add: spec_trim_log_def Let_def)
    show ?thesis
      by (rule wf_heap_update [OF w, of "lb\<lparr>pages := (pages lb)[?off := - 1]\<rparr>" _ p])
         (simp_all add: e len)
  qed
qed

text \<open>
  Inside the Block Map, \<open>trim\<close> is the spec's log-side step, then its data-side
  step, then the bookkeeping; outside, it reads \<open>data_list\<close> out of bounds.
\<close>

lemma trim_refines_cases:
  assumes w: "wf C st"
    and ra: "ra = (case log_block_of st (block_of st (ev_logical ev)) of
                     None \<Rightarrow> 0
                   | Some lb \<Rightarrow>
                       if pages lb ! (ev_logical ev mod BLOCK_SIZE C) \<noteq> - 1
                       then address lb + pages lb ! (ev_logical ev mod BLOCK_SIZE C) else 0)"
    and l: "spec_trim_log E C st fl (ev_logical ev) = (st2, fl2)"
    and d: "spec_trim_data E C st2 fl2 (ev_logical ev) = (st3, fl3)"
  shows "if nat (block_of st (ev_logical ev)) < length (data_list st)
         then (\<exists>r. trim E C st fl ev =
           Inr (r, ev\<lparr>ev_address := ra, ev_noop := True\<rparr>,
                st3\<lparr>stats := (stats st)\<lparr>numMemoryRead := numMemoryRead (stats st) + 1,
                                          numFTLTrim := numFTLTrim (stats st) + 1\<rparr>\<rparr>,
                snd (issue E (insert_events E (simulate_map_read E fl3
                       (ev\<lparr>ev_address := ra, ev_noop := True\<rparr>))
                       (ev\<lparr>ev_address := ra, ev_noop := True\<rparr>))
                       (ev\<lparr>ev_address := ra, ev_noop := True\<rparr>))))
         else trim E C st fl ev = Inl OutOfBounds"
proof -
  let ?b = "block_of st (ev_logical ev)"
  let ?off = "ev_logical ev mod BLOCK_SIZE C"
  let ?st1 = "bump_MemoryRead st"
  define tail where "tail = (\<lambda>returnAddress s2 f2.
     case data_at s2 ?b of Inl e \<Rightarrow> Inl e
     | Inr d \<Rightarrow>
         (let (s3, f3) =
                (if d \<noteq> - 1
                 then (let dataAddress = d + int ?off;
                           fl' = invalidate_page E f2 dataAddress
                       in if blk_state E fl' dataAddress = INACTIVE
                          then (s2\<lparr>data_list := (data_list s2)[nat ?b := - 1]\<rparr>,
                                erase_and_invalidate E fl' dataAddress DATA)
                          else (s2, fl'))
                 else (s2, f2));
              event1 = ev\<lparr>ev_address := returnAddress, ev_noop := True\<rparr>;
              fl4 = simulate_map_read E f3 event1;
              fl5 = insert_events E fl4 event1;
              st4 = s3\<lparr>stats := (stats s3)\<lparr>numFTLTrim := numFTLTrim (stats s3) + 1\<rparr>\<rparr>;
              (r, fl6) = issue E fl5 event1
          in Inr (r, event1, st4, fl6)))"
  have dl2: "data_list st2 = data_list st" and sh2: "addressShift st2 = addressShift st"
    using spec_trim_log_fields [OF l] by simp_all
  have b2: "block_of st2 (ev_logical ev) = ?b" using sh2 by (simp add: block_of_def)
  have T: "trim E C st fl ev = tail ra (st2\<lparr>stats := stats ?st1\<rparr>) fl2"
  proof (cases "lm_find (log_map st) ?b")
    case None
    then have "st2 = st" "fl2 = fl" using l by (simp_all add: spec_trim_log_def Let_def)
    moreover have "st\<lparr>stats := stats ?st1\<rparr> = ?st1" by (simp add: bump_MemoryRead_def)
    moreover have "ra = 0" using ra None by (simp add: log_block_of_def)
    ultimately show "trim E C st fl ev = tail ra (st2\<lparr>stats := stats ?st1\<rparr>) fl2"
      using None
      by (simp add: trim_def Let_def deref_opt_def tail_def page_of_def)
  next
    case (Some p)
    from wf_find(1) [OF w Some] obtain lb where h: "heap st p = Some lb" by blast
    have dr: "deref_opt st (Some p) = Inr (Some lb)" using h by (simp add: deref_opt_def deref_def)
    have ra': "ra = (if pages lb ! ?off \<noteq> - 1 then address lb + pages lb ! ?off else 0)"
      using ra Some h by (simp add: log_block_of_def)
    let ?a = "address lb + pages lb ! ?off"
    consider (none) "pages lb ! ?off = - 1"
      | (drop) "pages lb ! ?off \<noteq> - 1" "blk_state E (invalidate_page E fl ?a) ?a = INACTIVE"
      | (clear) "pages lb ! ?off \<noteq> - 1" "blk_state E (invalidate_page E fl ?a) ?a \<noteq> INACTIVE"
      by blast
    then show ?thesis
    proof cases
      case none
      then have "st2 = st" "fl2 = fl" using l Some h by (simp_all add: spec_trim_log_def Let_def)
      moreover have "st\<lparr>stats := stats ?st1\<rparr> = ?st1" by (simp add: bump_MemoryRead_def)
      moreover have "ra = 0" using ra' none by simp
      ultimately show ?thesis
        using Some dr none
        by (simp add: trim_def Let_def tail_def page_of_def)
    next
      case drop
      then have e: "st2 = st\<lparr>log_map := lm_erase ?b (log_map st), heap := (heap st)(p := None)\<rparr>"
        "fl2 = erase_and_invalidate E (invalidate_page E fl ?a) ?a LOG"
        using l Some h by (simp_all add: spec_trim_log_def Let_def)
      let ?S = "dispose_logblock
                  (?st1\<lparr>heap := (heap ?st1)(p \<mapsto> lb\<lparr>pages := (pages lb)[?off := - 1]\<rparr>)\<rparr>) p ?b"
      have "trim E C st fl ev = tail ?a ?S fl2"
        using Some dr drop
        by (simp add: trim_def Let_def tail_def page_of_def e(2))
      moreover have "?S = st2\<lparr>stats := stats ?st1\<rparr>"
        unfolding e(1) by (cases st) (simp add: dispose_logblock_def bump_MemoryRead_def)
      moreover have "ra = ?a" using ra' drop by simp
      ultimately show ?thesis by simp
    next
      case clear
      then have e: "st2 = st\<lparr>heap := (heap st)(p \<mapsto> lb\<lparr>pages := (pages lb)[?off := - 1]\<rparr>)\<rparr>"
        "fl2 = invalidate_page E fl ?a"
        using l Some h by (simp_all add: spec_trim_log_def Let_def)
      let ?S = "?st1\<lparr>heap := (heap ?st1)(p \<mapsto> lb\<lparr>pages := (pages lb)[?off := - 1]\<rparr>)\<rparr>"
      have "trim E C st fl ev = tail ?a ?S fl2"
        using Some dr clear
        by (simp add: trim_def Let_def tail_def page_of_def e(2))
      moreover have "?S = st2\<lparr>stats := stats ?st1\<rparr>"
        unfolding e(1) by (cases st) (simp add: bump_MemoryRead_def)
      moreover have "ra = ?a" using ra' clear by simp
      ultimately show ?thesis by simp
    qed
  qed
  note T' = T
  let ?s2 = "st2\<lparr>stats := stats ?st1\<rparr>"
  let ?ev' = "ev\<lparr>ev_address := ra, ev_noop := True\<rparr>"
  show ?thesis
  proof (cases "nat ?b < length (data_list st)")
    case False
    then have "data_at ?s2 ?b = Inl OutOfBounds" using dl2 by (simp add: data_at_def)
    then have "tail ra ?s2 fl2 = Inl OutOfBounds" by (simp add: tail_def)
    then show ?thesis using T' False by simp
  next
    case r: True
    have da: "data_at ?s2 ?b = Inr (data_list st2 ! nat ?b)"
      using r dl2 by (simp add: data_at_def block_of_def)
    let ?d = "data_list st2 ! nat ?b"
    let ?da = "?d + int ?off"
    have s3: "(if ?d \<noteq> - 1
               then (let dataAddress = ?da; fl' = invalidate_page E fl2 dataAddress
                     in if blk_state E fl' dataAddress = INACTIVE
                        then (?s2\<lparr>data_list := (data_list ?s2)[nat ?b := - 1]\<rparr>,
                              erase_and_invalidate E fl' dataAddress DATA)
                        else (?s2, fl'))
               else (?s2, fl2)) = (st3\<lparr>stats := stats ?st1\<rparr>, fl3)"
      using d b2 by (auto simp: spec_trim_data_def Let_def split: if_splits)
    have "tail ra ?s2 fl2 =
            Inr (fst (issue E (insert_events E (simulate_map_read E fl3 ?ev') ?ev') ?ev'), ?ev',
                 st3\<lparr>stats := (stats st)\<lparr>numMemoryRead := numMemoryRead (stats st) + 1,
                                            numFTLTrim := numFTLTrim (stats st) + 1\<rparr>\<rparr>,
                 snd (issue E (insert_events E (simulate_map_read E fl3 ?ev') ?ev') ?ev'))"
      unfolding tail_def da sum.case s3
      by (simp add: Let_def case_prod_beta bump_MemoryRead_def)
    with T' have "trim E C st fl ev =
            Inr (fst (issue E (insert_events E (simulate_map_read E fl3 ?ev') ?ev') ?ev'), ?ev',
                 st3\<lparr>stats := (stats st)\<lparr>numMemoryRead := numMemoryRead (stats st) + 1,
                                            numFTLTrim := numFTLTrim (stats st) + 1\<rparr>\<rparr>,
                 snd (issue E (insert_events E (simulate_map_read E fl3 ?ev') ?ev') ?ev'))"
      by (rule trans)
    then have "\<exists>r. trim E C st fl ev =
           Inr (r, ev\<lparr>ev_address := ra, ev_noop := True\<rparr>,
                st3\<lparr>stats := (stats st)\<lparr>numMemoryRead := numMemoryRead (stats st) + 1,
                                          numFTLTrim := numFTLTrim (stats st) + 1\<rparr>\<rparr>,
                snd (issue E (insert_events E (simulate_map_read E fl3
                       (ev\<lparr>ev_address := ra, ev_noop := True\<rparr>))
                       (ev\<lparr>ev_address := ra, ev_noop := True\<rparr>))
                       (ev\<lparr>ev_address := ra, ev_noop := True\<rparr>)))"
      by (rule exI)
    then show ?thesis using r by simp
  qed
qed

lemma trim_invariant:
  assumes w: "wf C st" and t: "trim E C st fl ev = Inr (r, ev', st', fl')"
  shows "wf C st'" and "length (log_map st') \<le> length (log_map st)"
    and "addressShift st' = addressShift st" and "length (data_list st') = length (data_list st)"
proof -
  obtain st2 fl2 where l: "spec_trim_log E C st fl (ev_logical ev) = (st2, fl2)" by fastforce
  obtain st3 fl3 where d: "spec_trim_data E C st2 fl2 (ev_logical ev) = (st3, fl3)" by fastforce
  from trim_refines_cases [OF w refl l d] t
  have e: "st' = st3\<lparr>stats := (stats st)\<lparr>numMemoryRead := numMemoryRead (stats st) + 1,
                                          numFTLTrim := numFTLTrim (stats st) + 1\<rparr>\<rparr>"
    by (auto split: if_splits)
  have w2: "wf C st2" using wf_spec_trim_log [OF w l] .
  have "wf C st3" by (rule wf_cong [OF w2]) (simp_all add: spec_trim_data_fields [OF d])
  then show "wf C st'" using e by simp
  show "length (log_map st') \<le> length (log_map st)"
    using e spec_trim_data_fields(1) [OF d] spec_trim_log_fields(5) [OF l] by simp
  show "addressShift st' = addressShift st"
    using e spec_trim_data_fields(3) [OF d] spec_trim_log_fields(2) [OF l] by simp
  show "length (data_list st') = length (data_list st)"
    using e spec_trim_data_fields(6) [OF d] spec_trim_log_fields(1) [OF l] by simp
qed

subsection \<open>Capacity of the Log Map and the victim of an eviction\<close>

lemma write_invariant:
  assumes w: "wf C st" and wr: "write_ftl E C st fl ev = Inr (r, ev', st', fl')"
  shows "wf C st'"
    and "length (log_map st) \<le> BAST_LOG_PAGE_LIMIT C \<Longrightarrow> length (log_map st') \<le> BAST_LOG_PAGE_LIMIT C"
proof -
  let ?lba = "block_of st (ev_logical ev)"
  from write_effect [OF w wr] obtain st0 fl0 p lb where
    p: "(if lm_find (log_map st) ?lba = None
         then allocate_new_logblock E C st fl None ?lba ev
         else Inr (st, fl)) = Inr (st0, fl0)"
    and f: "lm_find (log_map st0) ?lba = Some p" and h: "heap st0 p = Some lb"
    and lm: "log_map st' = log_map st0" and np: "next_ptr st' = next_ptr st0"
    and hp: "heap st' = (heap st0)(p \<mapsto> lb\<lparr>pages := (pages lb)[page_of C (ev_logical ev) :=
                                        int (get_num_valid E fl0 (address lb))]\<rparr>)"
    by (elim exE conjE) (rule that, assumption+)
  have w0: "wf C st0" using write_prepare(1) [OF w p] .
  from wf_find(1) [OF w0 f] h have len: "length (pages lb) = BLOCK_SIZE C" by auto
  show "wf C st'" by (rule wf_heap_update [OF w0 _ lm np hp]) (simp add: len)
  show "length (log_map st') \<le> BAST_LOG_PAGE_LIMIT C"
    if "length (log_map st) \<le> BAST_LOG_PAGE_LIMIT C"
    using write_prepare(3) [OF w p that] lm by simp
qed





lemma lm_assign_keys: "fst ` set (lm_assign k v m) = insert k (fst ` set m)"
proof (induction m)
  case Nil
  then show ?case by simp
next
  case (Cons a m)
  then show ?case by (cases a) (simp add: insert_commute)
qed

lemma inserted_keys_aux:
  "fst ` set (foldl (\<lambda>m (k, p). lm_assign k p m) m0 ins) = fst ` set m0 \<union> fst ` set ins"
proof (induction ins arbitrary: m0)
  case Nil
  then show ?case by simp
next
  case (Cons a ins)
  then show ?case by (cases a) (simp add: lm_assign_keys)
qed

lemma inserted_keys: "fst ` set (inserted ins) = fst ` set ins"
  by (simp add: inserted_def inserted_keys_aux)

lemma sorted_hd_Min:
  assumes "sorted_wrt (<) (map fst ((k, p) # rest))"
  shows "k = Min (fst ` set ((k, p) # rest))"
proof -
  have "\<forall>k' \<in> fst ` set rest. k < k'" using assms by auto
  then have "\<forall>k' \<in> fst ` set ((k, p) # rest). k \<le> k'" by auto
  then show ?thesis by (intro Min_eqI [symmetric]) auto
qed

text \<open>
  Claim C6, as the code has it.  When an allocation that completes finds
  the Log Map of a well-formed state at or above the limit, the entry it
  merges and removes is \<open>*log_map.begin()\<close>: the entry with the smallest
  logical block index of the entries in the Log Map.  The order of
  insertion plays no part: whatever list of assignments built the Log Map,
  in whatever order, the victim is the smallest block index of that list.
  Its log block is deleted and the other entries stay.
\<close>

theorem eviction_victim:
  assumes w: "wf C st" and full: "length (log_map st) \<ge> BAST_LOG_PAGE_LIMIT C"
    and a: "allocate_new_logblock E C st fl po lba ev = Inr (st', fl')"
  shows "\<exists>k p rest. log_map st = (k, p) # rest
           \<and> (\<forall>k' \<in> fst ` set rest. k < k')
           \<and> k = Min (fst ` set (log_map st))
           \<and> (\<forall>ins. inserted ins = log_map st \<longrightarrow> k = Min (fst ` set ins))
           \<and> log_map st' = lm_assign lba (next_ptr st) rest
           \<and> heap st' p = None"
proof -
  from allocate_effect(6) [OF a full] obtain k p rest where l: "log_map st = (k, p) # rest"
    by (cases "log_map st") auto
  have srt: "sorted_wrt (<) (map fst (log_map st))" using w by (simp add: wf_def)
  then have small: "\<forall>k' \<in> fst ` set rest. k < k'" using l by auto
  have mn: "k = Min (fst ` set (log_map st))"
    unfolding l by (rule sorted_hd_Min) (use srt l in simp)
  have ins: "k = Min (fst ` set ins)" if "inserted ins = log_map st" for ins
    using mn inserted_keys [of ins] that by simp
  have "lm_find (log_map st) k = Some p" using l by (simp add: lm_find_hd)
  from wf_find(2) [OF w this] have "p \<noteq> next_ptr st" by simp
  from allocate_effect(7) [OF a this] full l have "heap st' p = None" by simp
  moreover have "log_map st' = lm_assign lba (next_ptr st) rest"
    using allocate_effect(1) [OF a] full l by (simp add: after_eviction_def)
  ultimately show ?thesis using l small mn ins by blast
qed

text \<open>
  The witness: in \<open>st_two\<close> the Log Map holds the entries of the logical
  blocks 2 and 0, inserted in that order; an allocation for logical block 1
  evicts the entry of block 0, the smallest index, and keeps that of block 2.
\<close>

theorem eviction_victim_witness:
  "wf cfg2x2 st_two
   \<and> BAST_LOG_PAGE_LIMIT cfg2x2 \<le> length (log_map st_two)
   \<and> log_map st_two = [(0, 1), (2, 0)]
   \<and> inserted [(2, 0), (0, 1)] = log_map st_two
   \<and> Min (fst ` set [(2 :: int, 0 :: nat), (0, 1)]) = 0
   \<and> allocated_log_map (allocate_new_logblock (ref_env cfg2x2) cfg2x2 st_two (fresh_flash [6, 8])
         None 1 (host_event WRITE 2)) = Inr [(1, 2), (2, 0)]"
proof -
  let ?alloc = "allocate_new_logblock (ref_env cfg2x2) cfg2x2 st_two (fresh_flash [6, 8])
                  None 1 (host_event WRITE 2)"
  have w: "wf cfg2x2 st_two"
    by (simp add: wf_def st_two_def cfg2x2_def cfg2_def lb_ok_def FtlImpl_Bast_def)
  have l: "log_map st_two = [(0, 1), (2, 0)]" by (simp add: st_two_def)
  have full: "BAST_LOG_PAGE_LIMIT cfg2x2 \<le> length (log_map st_two)"
    by (simp add: l cfg2x2_def)
  have i: "inserted [(2, 0), (0, 1)] = log_map st_two" by (simp add: l inserted_def)
  have a: "allocated_log_map ?alloc = Inr [(1, 2), (2, 0)]" by code_simp
  then obtain st' fl' where r: "?alloc = Inr (st', fl')" and m: "log_map st' = [(1, 2), (2, 0)]"
    by (auto simp: allocated_log_map_def split: sum.splits)
  from eviction_victim [OF w full r] l i
  have "0 = Min (fst ` set [(2 :: int, 0 :: nat), (0, 1)])" by auto
  then show ?thesis using w full l i a by simp
qed

text \<open>
  The victim is the oldest entry when the oldest entry has the smallest
  index, also when later entries were not inserted in ascending order: with
  room for three log blocks, after writes to the logical blocks 0, 2 and 1
  a write to block 3 evicts the entry of block 0.
\<close>

lemma eviction_of_oldest:
  "slots_after (ref_env cfg2x3) cfg2x3 (FtlImpl_Bast cfg2x3) (fresh_flash [2, 4, 6, 8, 10, 12])
     [Write 0, Write 4, Write 2] = Inr [(0, Some [0, - 1]), (1, Some [0, - 1]), (2, Some [0, - 1])]
   \<and> slots_after (ref_env cfg2x3) cfg2x3 (FtlImpl_Bast cfg2x3) (fresh_flash [2, 4, 6, 8, 10, 12])
     [Write 0, Write 4, Write 2, Write 6]
      = Inr [(1, Some [0, - 1]), (2, Some [0, - 1]), (3, Some [0, - 1])]"
  by code_simp

text \<open>
  Claim C6 as stated fails.  With room for two log blocks, writes to
  logical block 2 and then to logical block 0 fill the Log Map; the write
  to logical block 1 that follows evicts the entry of block 0, inserted
  last, and keeps the entry of block 2, inserted first.
\<close>

theorem eviction_is_not_fifo:
  "slots_after (ref_env cfg2x2) cfg2x2 (FtlImpl_Bast cfg2x2) (fresh_flash [2, 4, 6, 8, 10])
     [Write 4] = Inr [(2, Some [0, - 1])]
   \<and> slots_after (ref_env cfg2x2) cfg2x2 (FtlImpl_Bast cfg2x2) (fresh_flash [2, 4, 6, 8, 10])
     [Write 4, Write 0] = Inr [(0, Some [0, - 1]), (2, Some [0, - 1])]
   \<and> slots_after (ref_env cfg2x2) cfg2x2 (FtlImpl_Bast cfg2x2) (fresh_flash [2, 4, 6, 8, 10])
     [Write 4, Write 0, Write 2] = Inr [(1, Some [0, - 1]), (2, Some [0, - 1])]"
  by code_simp

subsection \<open>The source pages of a random merge\<close>

text \<open>
  Claim C3 on the code.  The loop of \<open>random_merge\<close> decides between log
  block and data block by the slot of the page offset of the request that
  triggered the merge, not by the slot of the offset \<open>i\<close> being copied.

  On the fresh engine with one log block, after writes to the logical
  addresses 0, 1, 2 and 0, logical block 0 has the data block 2 and a log
  block at 8 that holds the newer copy of address 0.  A write to logical
  address 3 (page offset 1, whose slot in that log block is unset) evicts
  it: the merge copies physical page 2, the old copy, to offset 0 of the
  new data block 10, where the spec takes page 8; the read of address 0
  moves from 8 to 10.

  One request earlier, the write to logical address 0 (page offset 0)
  evicts the log block of logical block 1, at 4, whose slot 1 is unset:
  for offset 1 the merge reads \<open>4 + (-1) = 3\<close>, a page of another block,
  and copies it to 7, where the spec skips the offset; the read of the
  never written address 3 resolves to 7.
\<close>

theorem random_merge_source_choice:
  "merge_after (ref_env cfg2) cfg2 (FtlImpl_Bast cfg2) (fresh_flash [2, 4, 6, 8, 10, 12])
     [Write 0, Write 1, Write 2, Write 0] 2 0 (host_event WRITE 3)
     = Inr ([(2, Some 10), (3, Some 11)], [Some 8, Some 3])
   \<and> read_after (ref_env cfg2) cfg2 (FtlImpl_Bast cfg2) (fresh_flash [2, 4, 6, 8, 10, 12])
     [Write 0, Write 1, Write 2, Write 0] 0 = Inr 8
   \<and> read_after (ref_env cfg2) cfg2 (FtlImpl_Bast cfg2) (fresh_flash [2, 4, 6, 8, 10, 12])
     [Write 0, Write 1, Write 2, Write 0, Write 3] 0 = Inr 10
   \<and> merge_after (ref_env cfg2) cfg2 (FtlImpl_Bast cfg2) (fresh_flash [2, 4, 6, 8, 10, 12])
     [Write 0, Write 1, Write 2] 1 1 (host_event WRITE 0)
     = Inr ([(4, Some 6), (3, Some 7)], [Some 4, None])
   \<and> read_after (ref_env cfg2) cfg2 (FtlImpl_Bast cfg2) (fresh_flash [2, 4, 6, 8, 10, 12])
     [Write 0, Write 1, Write 2, Write 0] 3 = Inr 7"
  by code_simp

subsection \<open>Reclamation by trim\<close>










subsection \<open>Addresses never written\<close>

lemma address_split_inj:
  assumes pos: "0 < B" and le: "(2::nat) ^ s \<le> B"
    and d: "la div 2 ^ s = la' div 2 ^ s" and m: "la mod B = la' mod B"
  shows "la = la'"
proof -
  have aux: "x = y" if xy: "x \<le> y" and d: "x div 2 ^ s = y div 2 ^ s" and m: "x mod B = y mod B"
    for x y :: nat
  proof -
    define P :: nat where "P = 2 ^ s"
    have Ppos: "0 < P" by (simp add: P_def)
    have x: "x = (x div P) * P + x mod P" by (rule div_mult_mod_eq [symmetric])
    have "y = (y div P) * P + y mod P" by (rule div_mult_mod_eq [symmetric])
    then have y: "y = (x div P) * P + y mod P" using d by (simp add: P_def)
    have "y mod P < P" using Ppos by simp
    then have "y - x < P" using x y by linarith
    then have lt: "y - x < B" using le by (simp add: P_def)
    have dv: "B dvd y - x" using mod_eq_dvd_iff_nat [OF xy, of B] m by simp
    have "y - x = 0"
    proof (rule ccontr)
      assume "y - x \<noteq> 0"
      then have "0 < y - x" by simp
      with dv have "B \<le> y - x" by (rule dvd_imp_le)
      with lt show False by simp
    qed
    then show ?thesis using xy by simp
  qed
  show ?thesis
  proof (cases "la \<le> la'")
    case True
    then show ?thesis using d m by (rule aux)
  next
    case False
    then have "la' \<le> la" by simp
    then have "la' = la" using d [symmetric] m [symmetric] by (rule aux)
    then show ?thesis by simp
  qed
qed

lemma block_of_cong: "addressShift st' = addressShift st \<Longrightarrow> block_of st' la = block_of st la"
  by (simp add: block_of_def)

lemma lm_find_inj:
  assumes "distinct (map snd m)" and "lm_find m b = Some p" and "lm_find m b' = Some p"
  shows "b = b'"
proof -
  have m1: "(b, p) \<in> set m" and m2: "(b', p) \<in> set m"
    using assms(2,3) by (auto dest: lm_find_mem)
  have inj: "inj_on snd (set m)" using assms(1) by (simp add: distinct_map)
  from inj_onD [OF inj _ m1 m2] show ?thesis by simp
qed

lemma lm_find_key: "lm_find m b = Some p \<Longrightarrow> b \<in> fst ` set m"
  by (auto dest: lm_find_mem simp: image_iff intro: bexI [of _ "(b, p)"])

lemma trackedI:
  assumes "\<And>b lb i. log_block_of st b = Some lb \<Longrightarrow> i < BLOCK_SIZE C \<Longrightarrow> pages lb ! i \<noteq> - 1
             \<Longrightarrow> \<exists>la \<in> W. block_of st la = b \<and> page_of C la = i"
    and "\<And>b. b \<in> fst ` set (log_map st) \<Longrightarrow> \<exists>la \<in> W. block_of st la = b"
    and "\<And>n. n < length (data_list st) \<Longrightarrow> data_list st ! n \<noteq> - 1
             \<Longrightarrow> \<exists>la \<in> W. block_of st la = int n"
  shows "tracked C W st"
  unfolding tracked_def
proof (intro conjI allI impI ballI)
  fix b lb i
  assume "log_block_of st b = Some lb \<and> i < BLOCK_SIZE C \<and> pages lb ! i \<noteq> - 1"
  then show "\<exists>la \<in> W. block_of st la = b \<and> page_of C la = i" using assms(1) by simp
next
  fix b assume "b \<in> fst ` set (log_map st)"
  then show "\<exists>la \<in> W. block_of st la = b" by (rule assms(2))
next
  fix n assume "n < length (data_list st)" "data_list st ! n \<noteq> - 1"
  then show "\<exists>la \<in> W. block_of st la = int n" by (rule assms(3))
qed

lemma trackedD:
  assumes "tracked C W st"
  shows "log_block_of st b = Some lb \<Longrightarrow> i < BLOCK_SIZE C \<Longrightarrow> pages lb ! i \<noteq> - 1
             \<Longrightarrow> \<exists>la \<in> W. block_of st la = b \<and> page_of C la = i"
    and "b \<in> fst ` set (log_map st) \<Longrightarrow> \<exists>la \<in> W. block_of st la = b"
    and "n < length (data_list st) \<Longrightarrow> data_list st ! n \<noteq> - 1
             \<Longrightarrow> \<exists>la \<in> W. block_of st la = int n"
proof -
  from assms have abc:
    "(\<forall>b lb i. log_block_of st b = Some lb \<and> i < BLOCK_SIZE C \<and> pages lb ! i \<noteq> - 1
        \<longrightarrow> (\<exists>la \<in> W. block_of st la = b \<and> page_of C la = i))
     \<and> (\<forall>b \<in> fst ` set (log_map st). \<exists>la \<in> W. block_of st la = b)
     \<and> (\<forall>n < length (data_list st). data_list st ! n \<noteq> - 1
        \<longrightarrow> (\<exists>la \<in> W. block_of st la = int n))"
    unfolding tracked_def .
  note a = conjunct1 [OF abc] and b = conjunct1 [OF conjunct2 [OF abc]]
    and c = conjunct2 [OF conjunct2 [OF abc]]
  show "log_block_of st b = Some lb \<Longrightarrow> i < BLOCK_SIZE C \<Longrightarrow> pages lb ! i \<noteq> - 1
             \<Longrightarrow> \<exists>la \<in> W. block_of st la = b \<and> page_of C la = i"
    using a by simp
  show "b \<in> fst ` set (log_map st) \<Longrightarrow> \<exists>la \<in> W. block_of st la = b"
    using b by (rule bspec)
  show "n < length (data_list st) \<Longrightarrow> data_list st ! n \<noteq> - 1
             \<Longrightarrow> \<exists>la \<in> W. block_of st la = int n"
    using c by simp
qed

lemma tracked_mono:
  assumes t: "tracked C W st" and s: "W \<subseteq> W'"
  shows "tracked C W' st"
proof (rule trackedI)
  show "\<exists>la \<in> W'. block_of st la = b \<and> page_of C la = i"
    if "log_block_of st b = Some lb" "i < BLOCK_SIZE C" "pages lb ! i \<noteq> - 1" for b lb i
    using trackedD(1) [OF t that] s by blast
  show "\<exists>la \<in> W'. block_of st la = b" if "b \<in> fst ` set (log_map st)" for b
    using trackedD(2) [OF t that] s by blast
  show "\<exists>la \<in> W'. block_of st la = int n"
    if "n < length (data_list st)" "data_list st ! n \<noteq> - 1" for n
    using trackedD(3) [OF t that] s by blast
qed

lemma tracked_fresh: "tracked C W (FtlImpl_Bast C)"
  by (simp add: tracked_def log_block_of_def lm_find_def FtlImpl_Bast_def)

text \<open>A step that only removes mappings, or moves the mapping of a Log Map key to the Block Map.\<close>

lemma tracked_shrink:
  assumes t: "tracked C W st" and sh: "addressShift st' = addressShift st"
    and lg: "\<And>b lb'. log_block_of st' b = Some lb' \<Longrightarrow>
               \<exists>lb. log_block_of st b = Some lb
                  \<and> (\<forall>i<BLOCK_SIZE C. pages lb' ! i \<noteq> - 1 \<longrightarrow> pages lb ! i \<noteq> - 1)"
    and ks: "fst ` set (log_map st') \<subseteq> fst ` set (log_map st)"
    and ln: "length (data_list st') = length (data_list st)"
    and dl: "\<And>n. n < length (data_list st) \<Longrightarrow> data_list st' ! n \<noteq> - 1 \<Longrightarrow>
               data_list st ! n \<noteq> - 1 \<or> (\<exists>k \<in> fst ` set (log_map st). n = nat k)"
  shows "tracked C W st'"
proof -
  have b: "block_of st' la = block_of st la" for la using sh by (rule block_of_cong)
  have c1: "\<exists>la \<in> W. block_of st' la = b \<and> page_of C la = i"
    if "log_block_of st' b = Some lb'" "i < BLOCK_SIZE C" "pages lb' ! i \<noteq> - 1" for b lb' i
  proof -
    from lg [OF that(1)] that(2,3) obtain lb where l: "log_block_of st b = Some lb"
      and n: "pages lb ! i \<noteq> - 1" by blast
    from trackedD(1) [OF t l that(2) n] show ?thesis unfolding b .
  qed
  have c2: "\<exists>la \<in> W. block_of st' la = k" if "k \<in> fst ` set (log_map st')" for k
  proof -
    from that ks have "k \<in> fst ` set (log_map st)" by (rule subsetD [rotated])
    from trackedD(2) [OF t this] show ?thesis unfolding b .
  qed
  have c3: "\<exists>la \<in> W. block_of st' la = int n"
    if "n < length (data_list st')" "data_list st' ! n \<noteq> - 1" for n
  proof -
    from that ln have n: "n < length (data_list st)" by simp
    from dl [OF n that(2)] consider "data_list st ! n \<noteq> - 1"
      | k where "k \<in> fst ` set (log_map st)" "n = nat k" by blast
    then show ?thesis
    proof cases
      case 1
      from trackedD(3) [OF t n 1] show ?thesis unfolding b .
    next
      case 2
      from trackedD(2) [OF t 2(1)] obtain la where la: "la \<in> W" "block_of st la = k" by blast
      then have "0 \<le> k" using block_of_nonneg [of st la] by simp
      then have "int n = k" using 2(2) by simp
      then have "block_of st la = int n" using la by simp
      then show ?thesis using la(1) unfolding b by (rule_tac bexI)
    qed
  qed
  show ?thesis by (rule trackedI) (rule c1 c2 c3, assumption+)+
qed

lemma log_block_of_dispose:
  assumes srt: "sorted_wrt (<) (map fst (log_map st))"
    and lm: "log_map st' = lm_erase k (log_map st)" and hp: "heap st' = (heap st)(p := None)"
    and l: "log_block_of st' b = Some lb'"
  shows "log_block_of st b = Some lb'"
proof -
  from l obtain q where f: "lm_find (log_map st') b = Some q" and h: "heap st' q = Some lb'"
    by (auto simp: log_block_of_def split: option.splits)
  have "b \<noteq> k" using f lm lm_erase_find_same [OF srt, of k] by auto
  then have "lm_find (log_map st) b = Some q" using f lm by (simp add: lm_erase_find_other)
  moreover have "heap st q = Some lb'" using h hp by (auto split: if_splits)
  ultimately show ?thesis by (simp add: log_block_of_def)
qed

lemma lm_erase_keys: "fst ` set (lm_erase k m) \<subseteq> fst ` set m"
  using lm_erase_subset [of k m] by blast

lemma is_sequential_data:
  assumes "is_sequential E C st fl p lba ev = Inr (b, st', fl')"
  shows "\<exists>v. data_list st' = (data_list st)[nat lba := v] \<or> data_list st' = data_list st"
  using assms
  by (auto simp: is_sequential_def Let_def split: sum.splits if_splits)

lemma random_merge_data:
  assumes "random_merge E C st fl p lba ev = Inr (b, st', fl', tr)"
  shows "\<exists>v. data_list st' = (data_list st)[nat lba := v]"
  using assms
  by (auto simp: random_merge_def Let_def split: sum.splits option.splits prod.splits if_splits)

lemma merge_decision_data:
  assumes "merge_decision E C st fl p lba ev = Inr (st', fl')"
  shows "\<exists>v. data_list st' = (data_list st)[nat lba := v]"
proof -
  from assms obtain b st1 fl1 where s: "is_sequential E C st fl p lba ev = Inr (b, st1, fl1)"
    by (auto simp: merge_decision_def split: sum.splits)
  show ?thesis
  proof (cases b)
    case True
    then have "st' = st1" using assms s by (simp add: merge_decision_def)
    moreover have "\<exists>v. data_list st1 = (data_list st)[nat lba := v]"
      using s True by (auto simp: is_sequential_def Let_def split: sum.splits if_splits)
    ultimately show ?thesis by simp
  next
    case False
    then have e: "st1 = st" "fl1 = fl" using is_sequential_effect [OF s] by simp_all
    from assms s False e obtain b2 tr where
      "random_merge E C st fl p lba ev = Inr (b2, st', fl', tr)"
      by (auto simp: merge_decision_def split: sum.splits)
    then show ?thesis by (rule random_merge_data)
  qed
qed

lemma tracked_merge_decision:
  assumes w: "wf C st" and t: "tracked C W st" and f: "lm_find (log_map st) k = Some p"
    and m: "merge_decision E C st fl p k ev = Inr (st', fl')"
  shows "tracked C W st'"
proof (rule tracked_shrink [OF t])
  have srt: "sorted_wrt (<) (map fst (log_map st))" using w by (simp add: wf_def)
  from merge_decision_effect [OF m]
  have lm: "log_map st' = lm_erase k (log_map st)" and hp: "heap st' = (heap st)(p := None)"
    and sh: "addressShift st' = addressShift st"
    and ln: "length (data_list st') = length (data_list st)" by simp_all
  show "addressShift st' = addressShift st" by (rule sh)
  show "length (data_list st') = length (data_list st)" by (rule ln)
  show "fst ` set (log_map st') \<subseteq> fst ` set (log_map st)" unfolding lm by (rule lm_erase_keys)
  show "\<exists>lb. log_block_of st b = Some lb
           \<and> (\<forall>i<BLOCK_SIZE C. pages lb' ! i \<noteq> - 1 \<longrightarrow> pages lb ! i \<noteq> - 1)"
    if "log_block_of st' b = Some lb'" for b lb'
    using log_block_of_dispose [OF srt lm hp that] by simp
  from merge_decision_data [OF m] obtain v where
    d: "data_list st' = (data_list st)[nat k := v]" by blast
  have kk: "k \<in> fst ` set (log_map st)" using f by (rule lm_find_key)
  show "data_list st ! n \<noteq> - 1 \<or> (\<exists>k \<in> fst ` set (log_map st). n = nat k)"
    if "n < length (data_list st)" "data_list st' ! n \<noteq> - 1" for n
  proof (cases "n = nat k")
    case True
    then show ?thesis using kk by blast
  next
    case False
    then show ?thesis using that d by simp
  qed
qed

lemma tracked_allocate:
  assumes w: "wf C st" and t: "tracked C W st"
    and a: "allocate_new_logblock E C st fl po lba ev = Inr (st', fl')"
    and la: "la \<in> W" "block_of st la = lba"
  shows "tracked C W st'"
proof -
  obtain st1 fl1 where
    ev: "(if length (log_map st) \<ge> BAST_LOG_PAGE_LIMIT C
          then (case log_map st of [] \<Rightarrow> Inl EmptyLogMap
                | (k, p) # _ \<Rightarrow> merge_decision E C st fl p k ev)
          else Inr (st, fl)) = Inr (st1, fl1)"
    using a by (auto simp: allocate_new_logblock_def split: sum.splits)
  have w1: "wf C st1 \<and> tracked C W st1 \<and> addressShift st1 = addressShift st"
  proof (cases "length (log_map st) \<ge> BAST_LOG_PAGE_LIMIT C")
    case False
    then show ?thesis using ev w t by simp
  next
    case True
    then obtain k p rest where l: "log_map st = (k, p) # rest"
      using ev by (cases "log_map st") auto
    then have m: "merge_decision E C st fl p k ev = Inr (st1, fl1)" using ev True by simp
    have f: "lm_find (log_map st) k = Some p" using l by (simp add: lm_find_hd)
    from wf_merge_decision [OF w f m] tracked_merge_decision [OF w t f m]
      merge_decision_effect [OF m]
    show ?thesis by simp
  qed
  then have wf1: "wf C st1" and t1: "tracked C W st1" and sh1: "addressShift st1 = addressShift st"
    by simp_all
  from a ev obtain ad fl2 where
    s: "st' = st1\<lparr>heap := (heap st1)(next_ptr st1 \<mapsto> (new_LogPageBlock C)\<lparr>address := ad\<rparr>),
                      next_ptr := next_ptr st1 + 1,
                      log_map := lm_assign lba (next_ptr st1) (log_map st1)\<rparr>"
    by (auto simp: allocate_new_logblock_def Let_def split: sum.splits option.splits)
  have srt: "sorted_wrt (<) (map fst (log_map st1))" using wf1 by (simp add: wf_def)
  have b: "block_of st' x = block_of st1 x" for x using s by (simp add: block_of_def)
  have b1: "block_of st1 x = block_of st x" for x using sh1 by (rule block_of_cong)
  have c1: "\<exists>x \<in> W. block_of st' x = k \<and> page_of C x = i"
    if l: "log_block_of st' k = Some lb'" and i: "i < BLOCK_SIZE C" and ne: "pages lb' ! i \<noteq> - 1"
    for k lb' i
  proof (cases "k = lba")
    case True
    then have "lm_find (log_map st') k = Some (next_ptr st1)"
      using s srt by (simp add: lm_assign_find)
    then have "lb' = (new_LogPageBlock C)\<lparr>address := ad\<rparr>"
      using l s by (simp add: log_block_of_def)
    then have "pages lb' ! i = - 1" using i by (simp add: new_LogPageBlock_def)
    then show ?thesis using ne by simp
  next
    case False
    then have e: "lm_find (log_map st') k = lm_find (log_map st1) k"
      using s srt by (simp add: lm_assign_find)
    from l obtain q where f: "lm_find (log_map st1) k = Some q" and h: "heap st' q = Some lb'"
      unfolding log_block_of_def e by (auto split: option.splits)
    from wf_find(2) [OF wf1 f] have "q \<noteq> next_ptr st1" by simp
    then have "heap st1 q = Some lb'" using h s by simp
    then have "log_block_of st1 k = Some lb'" using f by (simp add: log_block_of_def)
    from trackedD(1) [OF t1 this i ne] show ?thesis unfolding b .
  qed
  have c2: "\<exists>x \<in> W. block_of st' x = k" if "k \<in> fst ` set (log_map st')" for k
  proof -
    from that s have "k = lba \<or> k \<in> fst ` set (log_map st1)" by (simp add: lm_assign_keys)
    then show ?thesis
    proof
      assume "k = lba"
      then show ?thesis using la b b1 by auto
    next
      assume "k \<in> fst ` set (log_map st1)"
      from trackedD(2) [OF t1 this] show ?thesis unfolding b .
    qed
  qed
  have c3: "\<exists>x \<in> W. block_of st' x = int n"
    if "n < length (data_list st')" "data_list st' ! n \<noteq> - 1" for n
  proof -
    from that s have n: "n < length (data_list st1)" "data_list st1 ! n \<noteq> - 1" by simp_all
    from trackedD(3) [OF t1 n] show ?thesis unfolding b .
  qed
  show ?thesis by (rule trackedI) (rule c1 c2 c3, assumption+)+
qed

lemma tracked_write:
  assumes w: "wf C st" and t: "tracked C W st"
    and wr: "write_ftl E C st fl ev = Inr (r, ev', st', fl')"
  shows "tracked C (insert (ev_logical ev) W) st'"
proof -
  let ?la = "ev_logical ev"
  let ?lba = "block_of st ?la"
  let ?page = "page_of C ?la"
  let ?W = "insert ?la W"
  from write_effect [OF w wr] obtain st0 fl0 p lb where
    p: "(if lm_find (log_map st) ?lba = None
         then allocate_new_logblock E C st fl None ?lba ev
         else Inr (st, fl)) = Inr (st0, fl0)"
    and f: "lm_find (log_map st0) ?lba = Some p" and h: "heap st0 p = Some lb"
    and lm: "log_map st' = log_map st0" and dl: "data_list st' = data_list st0"
    and sh: "addressShift st' = addressShift st0"
    and hp: "heap st' = (heap st0)(p \<mapsto> lb\<lparr>pages := (pages lb)[?page :=
                                        int (get_num_valid E fl0 (address lb))]\<rparr>)"
    by (elim exE conjE) (rule that, assumption+)
  have tW: "tracked C ?W st" using t by (rule tracked_mono) auto
  have t0: "tracked C ?W st0"
  proof (cases "lm_find (log_map st) ?lba = None")
    case True
    then have "allocate_new_logblock E C st fl None ?lba ev = Inr (st0, fl0)" using p by simp
    from tracked_allocate [OF w tW this, of ?la] show ?thesis by simp
  next
    case False
    then have "st0 = st" using p by (simp split: if_splits)
    then show ?thesis using tW by simp
  qed
  have w0: "wf C st0" and sh0: "addressShift st0 = addressShift st"
    using write_prepare(1,4) [OF w p] by simp_all
  have dv: "distinct (map snd (log_map st0))" using w0 by (simp add: wf_def)
  have b: "block_of st' x = block_of st0 x" for x using sh by (rule block_of_cong)
  have b0: "block_of st0 x = block_of st x" for x using sh0 by (rule block_of_cong)
  have c1: "\<exists>x \<in> ?W. block_of st' x = k \<and> page_of C x = i"
    if l: "log_block_of st' k = Some lb'" and i: "i < BLOCK_SIZE C" and ne: "pages lb' ! i \<noteq> - 1"
    for k lb' i
  proof -
    from l lm obtain q where fq: "lm_find (log_map st0) k = Some q" and hq: "heap st' q = Some lb'"
      by (auto simp: log_block_of_def split: option.splits)
    show ?thesis
    proof (cases "q = p")
      case True
      then have k: "k = ?lba" using lm_find_inj [OF dv fq] f by simp
      show ?thesis
      proof (cases "i = ?page")
        case True
        then show ?thesis using k b b0 by auto
      next
        case False
        have "lb' = lb\<lparr>pages := (pages lb)[?page := int (get_num_valid E fl0 (address lb))]\<rparr>"
          using hq hp \<open>q = p\<close> by simp
        then have n: "pages lb ! i \<noteq> - 1" using ne False by simp
        have "log_block_of st0 k = Some lb" using f h k b0 by (simp add: log_block_of_def)
        from trackedD(1) [OF t0 this i n] show ?thesis unfolding b .
      qed
    next
      case False
      then have "heap st0 q = Some lb'" using hq hp by simp
      then have "log_block_of st0 k = Some lb'" using fq by (simp add: log_block_of_def)
      from trackedD(1) [OF t0 this i ne] show ?thesis unfolding b .
    qed
  qed
  have c2: "\<exists>x \<in> ?W. block_of st' x = k" if "k \<in> fst ` set (log_map st')" for k
  proof -
    from that lm have "k \<in> fst ` set (log_map st0)" by simp
    from trackedD(2) [OF t0 this] show ?thesis unfolding b .
  qed
  have c3: "\<exists>x \<in> ?W. block_of st' x = int n"
    if "n < length (data_list st')" "data_list st' ! n \<noteq> - 1" for n
  proof -
    from that dl have n: "n < length (data_list st0)" "data_list st0 ! n \<noteq> - 1" by simp_all
    from trackedD(3) [OF t0 n] show ?thesis unfolding b .
  qed
  show ?thesis by (rule trackedI) (rule c1 c2 c3, assumption+)+
qed


lemma log_block_of_cong:
  "log_map st' = log_map st \<Longrightarrow> heap st' = heap st \<Longrightarrow> log_block_of st' b = log_block_of st b"
  by (simp add: log_block_of_def split: option.splits)

lemma tracked_cong:
  assumes t: "tracked C W st" and lm: "log_map st' = log_map st" and hp: "heap st' = heap st"
    and dl: "data_list st' = data_list st" and sh: "addressShift st' = addressShift st"
  shows "tracked C W st'"
proof (rule tracked_shrink [OF t sh])
  show "\<exists>lb. log_block_of st b = Some lb
           \<and> (\<forall>i<BLOCK_SIZE C. pages lb' ! i \<noteq> - 1 \<longrightarrow> pages lb ! i \<noteq> - 1)"
    if "log_block_of st' b = Some lb'" for b lb'
    using that log_block_of_cong [OF lm hp, of b] by simp
  show "fst ` set (log_map st') \<subseteq> fst ` set (log_map st)" using lm by simp
  show "length (data_list st') = length (data_list st)" using dl by simp
  show "data_list st ! n \<noteq> - 1 \<or> (\<exists>k \<in> fst ` set (log_map st). n = nat k)"
    if "n < length (data_list st)" "data_list st' ! n \<noteq> - 1" for n
    using that dl by simp
qed

lemma log_block_of_clear:
  assumes hp: "heap st' = (heap st)(p \<mapsto> lb\<lparr>pages := (pages lb)[off := - 1]\<rparr>)"
    and h: "heap st p = Some lb" and lm: "log_map st' = log_map st"
    and l: "log_block_of st' k = Some lb'"
  shows "\<exists>lb0. log_block_of st k = Some lb0
           \<and> (\<forall>i<n. pages lb' ! i \<noteq> - 1 \<longrightarrow> pages lb0 ! i \<noteq> - 1)"
proof -
  from l lm obtain q where f: "lm_find (log_map st) k = Some q" and hq: "heap st' q = Some lb'"
    by (auto simp: log_block_of_def split: option.splits)
  show ?thesis
  proof (cases "q = p")
    case True
    then have e: "lb' = lb\<lparr>pages := (pages lb)[off := - 1]\<rparr>" using hq hp by simp
    have "pages lb ! i \<noteq> - 1" if "pages lb' ! i \<noteq> - 1" for i
    proof (cases "i = off \<and> off < length (pages lb)")
      case True
      then have "pages lb' ! i = - 1" using e by simp
      then show ?thesis using that by simp
    next
      case False
      then have "pages lb' ! i = pages lb ! i" using e
        by (cases "off < length (pages lb)") (auto simp: list_update_beyond)
      then show ?thesis using that by simp
    qed
    moreover have "log_block_of st k = Some lb" using f h True by (simp add: log_block_of_def)
    ultimately show ?thesis by blast
  next
    case False
    then have "heap st q = Some lb'" using hq hp by simp
    then have "log_block_of st k = Some lb'" using f by (simp add: log_block_of_def)
    then show ?thesis by blast
  qed
qed

lemma tracked_spec_trim_log:
  assumes w: "wf C st" and t: "tracked C W st" and s: "spec_trim_log E C st fl la = (st2, fl2)"
  shows "tracked C W st2"
proof (cases "lm_find (log_map st) (block_of st la)")
  case None
  then show ?thesis using s t by (simp add: spec_trim_log_def Let_def)
next
  case (Some p)
  from wf_find(1) [OF w Some] obtain lb where h: "heap st p = Some lb" by blast
  have srt: "sorted_wrt (<) (map fst (log_map st))" using w by (simp add: wf_def)
  let ?off = "la mod BLOCK_SIZE C"
  let ?a = "address lb + pages lb ! ?off"
  consider (none) "pages lb ! ?off = - 1"
    | (drop) "pages lb ! ?off \<noteq> - 1" "blk_state E (invalidate_page E fl ?a) ?a = INACTIVE"
    | (clear) "pages lb ! ?off \<noteq> - 1" "blk_state E (invalidate_page E fl ?a) ?a \<noteq> INACTIVE"
    by blast
  then show ?thesis
  proof cases
    case none
    then show ?thesis using s t Some h by (simp add: spec_trim_log_def Let_def)
  next
    case drop
    then have e: "st2 = st\<lparr>log_map := lm_erase (block_of st la) (log_map st),
                             heap := (heap st)(p := None)\<rparr>"
      using s Some h by (simp add: spec_trim_log_def Let_def)
    show ?thesis
    proof (rule tracked_shrink [OF t])
      show "addressShift st2 = addressShift st" using e by simp
      show "length (data_list st2) = length (data_list st)" using e by simp
      show "fst ` set (log_map st2) \<subseteq> fst ` set (log_map st)"
        using e lm_erase_keys [of "block_of st la" "log_map st"] by simp
      show "\<exists>lb. log_block_of st b = Some lb
               \<and> (\<forall>i<BLOCK_SIZE C. pages lb' ! i \<noteq> - 1 \<longrightarrow> pages lb ! i \<noteq> - 1)"
        if "log_block_of st2 b = Some lb'" for b lb'
        using log_block_of_dispose [OF srt _ _ that, of "block_of st la" p] e by simp
      show "data_list st ! n \<noteq> - 1 \<or> (\<exists>k \<in> fst ` set (log_map st). n = nat k)"
        if "n < length (data_list st)" "data_list st2 ! n \<noteq> - 1" for n
        using that e by simp
    qed
  next
    case clear
    then have e: "st2 = st\<lparr>heap := (heap st)(p \<mapsto> lb\<lparr>pages := (pages lb)[?off := - 1]\<rparr>)\<rparr>"
      using s Some h by (simp add: spec_trim_log_def Let_def)
    show ?thesis
    proof (rule tracked_shrink [OF t])
      show "addressShift st2 = addressShift st" using e by simp
      show "length (data_list st2) = length (data_list st)" using e by simp
      show "fst ` set (log_map st2) \<subseteq> fst ` set (log_map st)" using e by simp
      show "\<exists>lb. log_block_of st b = Some lb
               \<and> (\<forall>i<BLOCK_SIZE C. pages lb' ! i \<noteq> - 1 \<longrightarrow> pages lb ! i \<noteq> - 1)"
        if "log_block_of st2 b = Some lb'" for b lb'
        by (rule log_block_of_clear [OF _ h _ that, of ?off]) (simp_all add: e)
      show "data_list st ! n \<noteq> - 1 \<or> (\<exists>k \<in> fst ` set (log_map st). n = nat k)"
        if "n < length (data_list st)" "data_list st2 ! n \<noteq> - 1" for n
        using that e by simp
    qed
  qed
qed

lemma tracked_spec_trim_data:
  assumes t: "tracked C W st" and s: "spec_trim_data E C st fl la = (st3, fl3)"
  shows "tracked C W st3"
proof (rule tracked_shrink [OF t])
  from spec_trim_data_fields [OF s]
  have lm: "log_map st3 = log_map st" and hp: "heap st3 = heap st"
    and sh: "addressShift st3 = addressShift st"
    and ln: "length (data_list st3) = length (data_list st)" by simp_all
  show "addressShift st3 = addressShift st" by (rule sh)
  show "length (data_list st3) = length (data_list st)" by (rule ln)
  show "fst ` set (log_map st3) \<subseteq> fst ` set (log_map st)" using lm by simp
  show "\<exists>lb. log_block_of st b = Some lb
           \<and> (\<forall>i<BLOCK_SIZE C. pages lb' ! i \<noteq> - 1 \<longrightarrow> pages lb ! i \<noteq> - 1)"
    if "log_block_of st3 b = Some lb'" for b lb'
    using that log_block_of_cong [OF lm hp, of b] by simp
  have "data_list st3 = data_list st
      \<or> data_list st3 = (data_list st)[nat (block_of st la) := - 1]"
    using s by (auto simp: spec_trim_data_def Let_def split: if_splits)
  then have "data_list st ! n \<noteq> - 1" if "data_list st3 ! n \<noteq> - 1" for n
    using that
    by (cases "nat (block_of st la) < length (data_list st)")
       (auto simp: nth_list_update list_update_beyond split: if_splits)
  then show "data_list st ! n \<noteq> - 1 \<or> (\<exists>k \<in> fst ` set (log_map st). n = nat k)"
    if "n < length (data_list st)" "data_list st3 ! n \<noteq> - 1" for n
    using that by blast
qed

lemma tracked_trim:
  assumes w: "wf C st" and t: "tracked C W st"
    and tr: "trim E C st fl ev = Inr (r, ev', st', fl')"
  shows "tracked C W st'"
proof -
  obtain st2 fl2 where l: "spec_trim_log E C st fl (ev_logical ev) = (st2, fl2)" by fastforce
  obtain st3 fl3 where d: "spec_trim_data E C st2 fl2 (ev_logical ev) = (st3, fl3)" by fastforce
  from trim_refines_cases [OF w refl l d] tr
  have e: "st' = st3\<lparr>stats := (stats st)\<lparr>numMemoryRead := numMemoryRead (stats st) + 1,
                                          numFTLTrim := numFTLTrim (stats st) + 1\<rparr>\<rparr>"
    by (auto split: if_splits)
  have "tracked C W st3"
    using tracked_spec_trim_data [OF tracked_spec_trim_log [OF w t l] d] .
  then show ?thesis by (rule tracked_cong) (simp_all add: e)
qed

lemma exec_tracked:
  assumes w: "wf C st" and t: "tracked C W st"
    and x: "exec E C st fl rq = Inr (r, ev', st', fl')"
  shows "wf C st' \<and> tracked C (W \<union> {la. rq = Write la}) st'
       \<and> addressShift st' = addressShift st \<and> length (data_list st') = length (data_list st)"
proof (cases rq)
  case (Read la)
  then have "read E C st fl (host_event READ la) = Inr (r, ev', st', fl')"
    using x by (simp add: exec_def)
  from read_frame_aux [OF this]
  have e: "st' = st\<lparr>stats := (stats st)\<lparr>numMemoryRead := numMemoryRead (stats st) + 1,
       numFTLRead := numFTLRead (stats st) + 1\<rparr>\<rparr>" .
  have "tracked C W st'" by (rule tracked_cong [OF t]) (simp_all add: e)
  then show ?thesis using w e Read by simp
next
  case (Write la)
  then have wr: "write_ftl E C st fl (host_event WRITE la) = Inr (r, ev', st', fl')"
    using x by (simp add: exec_def)
  from write_effect [OF w wr] obtain st0 fl0 where
    p: "(if lm_find (log_map st) (block_of st (ev_logical (host_event WRITE la))) = None
         then allocate_new_logblock E C st fl None
                (block_of st (ev_logical (host_event WRITE la))) (host_event WRITE la)
         else Inr (st, fl)) = Inr (st0, fl0)"
    and dl: "data_list st' = data_list st0" and sh: "addressShift st' = addressShift st0"
    by (elim exE conjE) (rule that, assumption+)
  from write_prepare(4,5) [OF w p]
  have "addressShift st0 = addressShift st" "length (data_list st0) = length (data_list st)"
    by simp_all
  moreover have "W \<union> {x. rq = Write x} = insert la W" using Write by auto
  moreover have "ev_logical (host_event WRITE la) = la" by (simp add: host_event_def)
  ultimately show ?thesis
    using write_invariant(1) [OF w wr] tracked_write [OF w t wr] dl sh by simp
next
  case (Trim la)
  then have tr: "trim E C st fl (host_event TRIM la) = Inr (r, ev', st', fl')"
    using x by (simp add: exec_def)
  from trim_invariant(1,3,4) [OF w tr] tracked_trim [OF w t tr] Trim show ?thesis by simp
qed

lemma run_tracked:
  assumes "wf C st" and "tracked C W st" and "run E C st fl rqs = Inr (st', fl')"
  shows "wf C st' \<and> tracked C (W \<union> {la. Write la \<in> set rqs}) st'
       \<and> addressShift st' = addressShift st \<and> length (data_list st') = length (data_list st)"
  using assms
proof (induction rqs arbitrary: st fl W)
  case Nil
  then show ?case by simp
next
  case (Cons rq rqs)
  from Cons.prems(3) obtain r ev1 st1 fl1 where
    x: "exec E C st fl rq = Inr (r, ev1, st1, fl1)" and rest: "run E C st1 fl1 rqs = Inr (st', fl')"
    by (auto split: sum.splits)
  from exec_tracked [OF Cons.prems(1,2) x]
  have w1: "wf C st1" and t1: "tracked C (W \<union> {la. rq = Write la}) st1"
    and sh: "addressShift st1 = addressShift st"
    and ln: "length (data_list st1) = length (data_list st)" by simp_all
  have eq: "W \<union> {la. rq = Write la} \<union> {la. Write la \<in> set rqs}
              = W \<union> {la. Write la \<in> set (rq # rqs)}" by auto
  from Cons.IH [OF w1 t1 rest] show ?case unfolding eq using sh ln by simp
qed

text \<open>
  Claim C1, as the code has it.  In a well-formed state, for a logical
  address inside the Block Map, \<open>read\<close> returns and resolves the event to the
  address of the spec's priority order: a set slot of the log block gives
  the log block's base plus the slot; otherwise a missing Block Map entry
  gives the sentinel; otherwise the Block Map entry plus the page offset;
  and a page tracked as invalid gives the sentinel.

  For the addresses never written: in the state reached from the freshly
  constructed engine by any sequence of reads, writes and trims that
  completes, an address that no request of the sequence wrote has no set
  log slot, so its read resolves to the sentinel unless its block has a
  Block Map entry, and then to that entry plus the page offset (or the
  sentinel if that page is tracked as invalid).  In particular the read
  resolves to the sentinel whenever no address of its block was written.
\<close>

theorem read_resolution:
  assumes "wf C st" and "nat (block_of st (ev_logical ev)) < length (data_list st)"
  shows "resolved_address (read E C st fl ev) = Inr (spec_read E C st fl (ev_logical ev))
       \<and> (\<forall>fl0 rqs. run E C (FtlImpl_Bast C) fl0 rqs = Inr (st, fl)
                      \<and> Write (ev_logical ev) \<notin> set rqs
            \<longrightarrow> resolved_address (read E C st fl ev) =
                  Inr (if data_list st ! nat (block_of st (ev_logical ev)) = - 1
                          \<or> get_state E fl (data_list st ! nat (block_of st (ev_logical ev))
                                              + int (ev_logical ev mod BLOCK_SIZE C)) = INVALID
                       then sentinel
                       else data_list st ! nat (block_of st (ev_logical ev))
                              + int (ev_logical ev mod BLOCK_SIZE C))
              \<and> ((\<forall>la. Write la \<in> set rqs
                         \<longrightarrow> block_of st la \<noteq> block_of st (ev_logical ev))
                   \<longrightarrow> resolved_address (read E C st fl ev) = Inr sentinel))"
proof -
  let ?la = "ev_logical ev"
  let ?b = "block_of st ?la"
  let ?off = "?la mod BLOCK_SIZE C"
  let ?d = "data_list st ! nat ?b"
  from read_total [OF assms, of E fl]
  have res: "resolved_address (read E C st fl ev) = Inr (spec_read E C st fl ?la)"
    by (auto simp: resolved_address_def)
  have pos: "0 < BLOCK_SIZE C" using assms(1) by (simp add: wf_def)
  have main: "spec_read E C st fl ?la =
                (if ?d = - 1 \<or> get_state E fl (?d + int ?off) = INVALID then sentinel
                 else ?d + int ?off)
            \<and> ((\<forall>la. Write la \<in> set rqs \<longrightarrow> block_of st la \<noteq> ?b)
                 \<longrightarrow> spec_read E C st fl ?la = sentinel)"
    if r: "run E C (FtlImpl_Bast C) fl0 rqs = Inr (st, fl)" and nw: "Write ?la \<notin> set rqs"
    for fl0 rqs
  proof -
    let ?W = "{la. Write la \<in> set rqs}"
    have t0: "tracked C {} (FtlImpl_Bast C)" by (rule tracked_fresh)
    from run_tracked [OF wf_fresh [OF pos] t0 r]
    have t: "tracked C ?W st" and sh: "addressShift st = addressShift (FtlImpl_Bast C)" by simp_all
    have s: "addressShift st = halving_loop (BLOCK_SIZE C div 2) 0"
      using sh by (simp add: FtlImpl_Bast_def)
    have le: "2 ^ addressShift st \<le> BLOCK_SIZE C" using shift_bounds [OF pos] s by simp
    have slot: "pages lb ! ?off = - 1" if l: "log_block_of st ?b = Some lb" for lb
    proof (rule ccontr)
      assume n: "pages lb ! ?off \<noteq> - 1"
      have "?off < BLOCK_SIZE C" using pos by simp
      from trackedD(1) [OF t l this n] obtain la where la: "Write la \<in> set rqs"
        and b: "block_of st la = ?b" and p: "page_of C la = ?off" by blast
      have "la div 2 ^ addressShift st = ?la div 2 ^ addressShift st"
        using b by (simp add: block_of_def)
      moreover have "la mod BLOCK_SIZE C = ?la mod BLOCK_SIZE C" using p by (simp add: page_of_def)
      ultimately have "la = ?la" by (rule address_split_inj [OF pos le])
      then show False using la nw by simp
    qed
    have look: "spec_lookup C st ?la = (if ?d = - 1 then sentinel else ?d + int ?off)"
      using slot unfolding spec_lookup_def Let_def by (auto split: option.splits)
    have a: "spec_read E C st fl ?la =
                (if ?d = - 1 \<or> get_state E fl (?d + int ?off) = INVALID then sentinel
                 else ?d + int ?off)"
      unfolding spec_read_def look by simp
    have b: "spec_read E C st fl ?la = sentinel"
      if nb: "\<forall>la. Write la \<in> set rqs \<longrightarrow> block_of st la \<noteq> ?b"
    proof -
      have "?d = - 1"
      proof (rule ccontr)
        assume "?d \<noteq> - 1"
        from trackedD(3) [OF t assms(2) this] obtain la where "Write la \<in> set rqs"
          "block_of st la = int (nat ?b)" by blast
        then show False using nb block_of_nonneg [of st ?la] by simp
      qed
      then show ?thesis using a by simp
    qed
    show ?thesis using a b by blast
  qed
  show ?thesis unfolding res using main by blast
qed

text \<open>
  The witness: after the writes of the logical addresses 1 and 2, which
  merge logical block 0 into the Block Map, the reads of address 3 (its
  block has a log block, and no Block Map entry) and of address 5 (no
  address of its block was written) resolve to the sentinel.
\<close>

theorem read_resolution_witness:
  "\<exists>st fl. run (ref_env cfg2) cfg2 (FtlImpl_Bast cfg2) (fresh_flash [2, 4, 6, 8]) [Write 1, Write 2]
             = Inr (st, fl)
     \<and> wf cfg2 st
     \<and> data_list st = [4, - 1, - 1, - 1]
     \<and> resolved_address (read (ref_env cfg2) cfg2 st fl (host_event READ 3)) = Inr sentinel
     \<and> resolved_address (read (ref_env cfg2) cfg2 st fl (host_event READ 5)) = Inr sentinel"
proof -
  let ?E = "ref_env cfg2" and ?S = "FtlImpl_Bast cfg2" and ?F = "fresh_flash [2, 4, 6, 8]"
  let ?rqs = "[Write 1, Write 2]"
  have "data_list_after ?E cfg2 ?S ?F ?rqs = Inr [4, - 1, - 1, - 1]" by code_simp
  then obtain st fl where r: "run ?E cfg2 ?S ?F ?rqs = Inr (st, fl)"
    and dl: "data_list st = [4, - 1, - 1, - 1]"
    by (auto simp: data_list_after_def split: sum.splits)
  have w0: "wf cfg2 ?S" by (rule wf_fresh) (simp add: cfg2_def)
  from run_tracked [OF w0 tracked_fresh r]
  have w: "wf cfg2 st" and sh: "addressShift st = 1" using cfg2_shift by simp_all
  have b3: "block_of st (ev_logical (host_event READ 3)) = 1"
    and b5: "block_of st (ev_logical (host_event READ 5)) = 2"
    using sh by (simp_all add: block_of_def host_event_def)
  have r3: "nat (block_of st (ev_logical (host_event READ 3))) < length (data_list st)"
    and r5: "nat (block_of st (ev_logical (host_event READ 5))) < length (data_list st)"
    unfolding b3 b5 dl by simp_all
  have n3: "Write (ev_logical (host_event READ 3)) \<notin> set ?rqs"
    and n5: "Write (ev_logical (host_event READ 5)) \<notin> set ?rqs"
    by (simp_all add: host_event_def)
  have nb: "\<forall>la. Write la \<in> set ?rqs \<longrightarrow> block_of st la \<noteq> block_of st (ev_logical (host_event READ 5))"
    unfolding b5 using sh by (simp add: block_of_def)
  note c3 = read_resolution [OF w r3, of ?E fl, THEN conjunct2, rule_format, OF conjI [OF r n3]]
  note c5 = read_resolution [OF w r5, of ?E fl, THEN conjunct2, rule_format, OF conjI [OF r n5]]
  have a3: "resolved_address (read ?E cfg2 st fl (host_event READ 3)) = Inr sentinel"
    using c3 [THEN conjunct1] unfolding b3 dl by simp
  have a5: "resolved_address (read ?E cfg2 st fl (host_event READ 5)) = Inr sentinel"
    using c5 [THEN conjunct2] nb by blast
  show ?thesis using r w dl a3 a5 by blast
qed

text \<open>
  Claim C1 as stated fails in its last sentence.  On the fresh engine,
  writes to the logical addresses 1 and 2 make the second write evict the
  log block of logical block 0 by a random merge, which gives block 0 the
  Block Map entry 4.  Logical address 0 was never written, and its read
  resolves to physical address 4 (an empty page, not tracked as invalid),
  not to the sentinel.
\<close>

theorem read_unwritten_after_merge:
  "read_after (ref_env cfg2) cfg2 (FtlImpl_Bast cfg2) (fresh_flash [2, 4, 6, 8]) [Write 1, Write 2] 0
     = Inr 4
   \<and> sentinel \<noteq> 4"
  by code_simp

end
